theory Spec2Isabelle
  imports Complex_Main "HOL-Library.Multiset"
begin

section \<open>String Similarity Engine (src/app/page.tsx, lines 37-64)\<close>

text \<open>
  JavaScript strings are modelled as \<open>string\<close> (lists of characters); \<open>a.length\<close> is
  \<open>length a\<close>, \<open>a[i]\<close> is \<open>a ! i\<close> and \<open>a === b\<close> is equality of the lists.
  JavaScript numbers are modelled as \<open>nat\<close> where the code only counts and as \<open>real\<close>
  where it divides; rounding of IEEE doubles is not part of the model.
\<close>

subsection \<open>The table of \<open>levenshtein\<close>\<close>

text \<open>
  \<open>Array.from({ length: al + 1 }, () => new Array(bl + 1).fill(0))\<close>: a table of
  \<open>al + 1\<close> rows, each of \<open>bl + 1\<close> zeros.
\<close>

definition new_table :: "nat \<Rightarrow> nat \<Rightarrow> nat list list" where
  "new_table al bl = replicate (al + 1) (replicate (bl + 1) 0)"

text \<open>The assignment \<open>dp[i][j] = v\<close>. Every loop below stays inside the table.\<close>

definition put :: "nat list list \<Rightarrow> nat \<Rightarrow> nat \<Rightarrow> nat \<Rightarrow> nat list list" where
  "put dp i j v = dp[i := (dp ! i)[j := v]]"

text \<open>\<open>for (let i = 0; i <= al; i++) dp[i][0] = i\<close>\<close>

definition init_col :: "nat \<Rightarrow> nat list list \<Rightarrow> nat list list" where
  "init_col al dp = fold (\<lambda>i t. put t i 0 i) [0..<al + 1] dp"

text \<open>\<open>for (let j = 0; j <= bl; j++) dp[0][j] = j\<close>\<close>

definition init_row :: "nat \<Rightarrow> nat list list \<Rightarrow> nat list list" where
  "init_row bl dp = fold (\<lambda>j t. put t 0 j j) [0..<bl + 1] dp"

text \<open>The body of the inner loop, for one pair \<open>(i, j)\<close> with \<open>1 \<le> i\<close> and \<open>1 \<le> j\<close>.\<close>

definition cell :: "string \<Rightarrow> string \<Rightarrow> nat \<Rightarrow> nat \<Rightarrow> nat list list \<Rightarrow> nat list list" where
  "cell a b i j dp =
     (let cost = (if a ! (i - 1) = b ! (j - 1) then 0 else 1)
      in put dp i j
           (min (min (dp ! (i - 1) ! j + 1) (dp ! i ! (j - 1) + 1))
                (dp ! (i - 1) ! (j - 1) + cost)))"

text \<open>\<open>for (let j = 1; j <= bl; j++) ...\<close>\<close>

definition fill_row :: "string \<Rightarrow> string \<Rightarrow> nat \<Rightarrow> nat list list \<Rightarrow> nat list list" where
  "fill_row a b i dp = fold (cell a b i) [1..<length b + 1] dp"

text \<open>\<open>for (let i = 1; i <= al; i++) ...\<close>\<close>

definition fill :: "string \<Rightarrow> string \<Rightarrow> nat list list \<Rightarrow> nat list list" where
  "fill a b dp = fold (fill_row a b) [1..<length a + 1] dp"

definition levenshtein :: "string \<Rightarrow> string \<Rightarrow> nat" where
  "levenshtein a b =
     (if a = b then 0
      else let al = length a; bl = length b in
        if al = 0 then bl
        else if bl = 0 then al
        else fill a b (init_row bl (init_col al (new_table al bl))) ! al ! bl)"

definition similarity :: "string \<Rightarrow> string \<Rightarrow> real" where
  "similarity a b =
     (let len = max (length a) (length b) in
      if len = 0 then 0
      else 1 - real (levenshtein a b) / real len)"

subsection \<open>The classical recurrence\<close>

text \<open>
  The unit-cost edit distance between the first \<open>i\<close> characters of \<open>a\<close> and the first
  \<open>j\<close> characters of \<open>b\<close>, by the classical recurrence: deleting, inserting and
  substituting a character cost one each, an equal character costs nothing. This
  definition follows the specification's words, not the code.
\<close>

fun lev :: "string \<Rightarrow> string \<Rightarrow> nat \<Rightarrow> nat \<Rightarrow> nat" where
  "lev a b 0 j = j"
| "lev a b (Suc i) 0 = Suc i"
| "lev a b (Suc i) (Suc j) =
     min (min (lev a b i (Suc j) + 1) (lev a b (Suc i) j + 1))
         (lev a b i j + (if a ! i = b ! j then 0 else 1))"

text \<open>
  The classical edit distance itself, again in the specification's words, by recursion
  on the two strings: the cheapest of deleting the first character of the one,
  inserting the first character of the other, and keeping or substituting the first
  character.
\<close>

fun editDistance :: "string \<Rightarrow> string \<Rightarrow> nat" where
  "editDistance [] ys = length ys"
| "editDistance (x # xs) [] = Suc (length xs)"
| "editDistance (x # xs) (y # ys) =
     min (min (editDistance xs (y # ys) + 1) (editDistance (x # xs) ys + 1))
         (editDistance xs ys + (if x = y then 0 else 1))"

definition levenshteinDistance :: "string \<Rightarrow> string \<Rightarrow> nat" where
  "levenshteinDistance a b = editDistance a b"

text \<open>
  Edit scripts: \<open>edits n xs ys\<close> holds when \<open>xs\<close> becomes \<open>ys\<close> by a script that goes
  through the strings once and deletes, inserts or substitutes \<open>n\<close> characters in all.
\<close>

inductive edits :: "nat \<Rightarrow> string \<Rightarrow> string \<Rightarrow> bool" where
  finish: "edits 0 [] []"
| delete: "edits n xs ys \<Longrightarrow> edits (Suc n) (x # xs) ys"
| insert: "edits n xs ys \<Longrightarrow> edits (Suc n) xs (y # ys)"
| keep: "edits n xs ys \<Longrightarrow> edits n (x # xs) (x # ys)"
| substitute: "edits n xs ys \<Longrightarrow> edits (Suc n) (x # xs) (y # ys)"

section \<open>JavaScript strings\<close>

text \<open>
  A character is a UTF-16 code unit below 256 (the Latin-1 range); \<open>of_char\<close> gives its
  code. \<open>toLowerCase\<close> moves the upper-case letters of that range (A-Z, and U+00C0 to
  U+00DE without the multiplication sign U+00D7) 32 code points up and keeps every other
  character.
\<close>

definition isUpperCase :: "char \<Rightarrow> bool" where
  "isUpperCase c =
     (let n = (of_char c :: nat)
      in (65 \<le> n \<and> n \<le> 90) \<or> (192 \<le> n \<and> n \<le> 222 \<and> n \<noteq> 215))"

definition toLowerCase_char :: "char \<Rightarrow> char" where
  "toLowerCase_char c = (if isUpperCase c then char_of (of_char c + (32::nat)) else c)"

definition toLowerCase :: "string \<Rightarrow> string" where
  "toLowerCase s = map toLowerCase_char s"

text \<open>
  The white space and line terminators that \<open>trim\<close> removes: tab, line feed, vertical
  tab, form feed, carriage return, space and the no-break space U+00A0.
\<close>

definition isWhiteSpace :: "char \<Rightarrow> bool" where
  "isWhiteSpace c = ((of_char c :: nat) \<in> {9, 10, 11, 12, 13, 32, 160})"

definition trim :: "string \<Rightarrow> string" where
  "trim s = rev (dropWhile isWhiteSpace (rev (dropWhile isWhiteSpace s)))"

definition startsWith :: "string \<Rightarrow> string \<Rightarrow> bool" where
  "startsWith s p = (take (length p) s = p)"

definition endsWith :: "string \<Rightarrow> string \<Rightarrow> bool" where
  "endsWith s p = (length p \<le> length s \<and> drop (length s - length p) s = p)"

text \<open>\<open>s.includes(q)\<close>: \<open>q\<close> occurs in \<open>s\<close> as a contiguous substring.\<close>

fun str_includes :: "string \<Rightarrow> string \<Rightarrow> bool" where
  "str_includes [] q = (q = [])"
| "str_includes (c # s) q = (startsWith (c # s) q \<or> str_includes s q)"

text \<open>\<open>s.slice(1, -1)\<close>: without the first and the last character.\<close>

definition slice_1_m1 :: "string \<Rightarrow> string" where
  "slice_1_m1 s = butlast (tl s)"

text \<open>\<open>parts.join(' ')\<close>\<close>

fun join_sp :: "string list \<Rightarrow> string" where
  "join_sp [] = []"
| "join_sp [x] = x"
| "join_sp (x # y # ys) = x @ CHR '' '' # join_sp (y # ys)"

section \<open>Regular expressions (the fragment \<open>fallbackFiltered\<close> builds)\<close>

text \<open>
  \<open>escapeRegExp\<close> puts a backslash before each of the characters
  \<open>. * + ? ^ $ { } ( ) | [ ] \<close> and the backslash itself.
\<close>

definition backslash :: char where
  "backslash = CHR 0x5C"

definition metachars :: "char list" where
  "metachars = ''.*+?^${}()|[]'' @ [backslash]"

definition escapeRegExp :: "string \<Rightarrow> string" where
  "escapeRegExp str = concat (map (\<lambda>c. if c \<in> set metachars then [backslash, c] else [c]) str)"

text \<open>
  A compiled pattern of the fragment is a sequence of atoms: the assertion \<open>\b\<close> and
  literal characters. \<open>compile\<close> reads the pattern source as \<open>new RegExp(source, 'i')\<close>
  does, for the fragment: \<open>\b\<close> is the word boundary, a backslash before a
  metacharacter is that character, any other character that is not a metacharacter is
  itself; everything else (an operator, another escape, a backslash at the end) is
  outside the fragment and gives \<open>None\<close>.
\<close>

datatype atom = Boundary | Lit char

fun compile :: "string \<Rightarrow> atom list option" where
  "compile [] = Some []"
| "compile [c] = (if c \<in> set metachars then None else Some [Lit c])"
| "compile (c # d # rest) =
     (if c = backslash then
        (if d = CHR ''b'' then map_option (Cons Boundary) (compile rest)
         else if d \<in> set metachars then map_option (Cons (Lit d)) (compile rest)
         else None)
      else if c \<in> set metachars then None
      else map_option (Cons (Lit c)) (compile (d # rest)))"

text \<open>\<open>\w\<close> without the unicode flag: A-Z, a-z, 0-9 and the underscore.\<close>

definition isWordChar :: "char \<Rightarrow> bool" where
  "isWordChar c =
     (let n = (of_char c :: nat)
      in (65 \<le> n \<and> n \<le> 90) \<or> (97 \<le> n \<and> n \<le> 122) \<or> (48 \<le> n \<and> n \<le> 57) \<or> n = 95)"

text \<open>
  With the flag \<open>i\<close> (and no unicode flag) two characters match when their
  canonical forms are equal: the code unit of the upper-case form. In the Latin-1 range
  that is 32 below for a-z and for U+00E0 to U+00FE without the division sign U+00F7;
  U+00FF becomes U+0178 and U+00B5 becomes U+039C; every other character is its own
  canonical form.
\<close>

definition canonicalize :: "char \<Rightarrow> nat" where
  "canonicalize c =
     (let n = (of_char c :: nat)
      in if (97 \<le> n \<and> n \<le> 122) \<or> (224 \<le> n \<and> n \<le> 254 \<and> n \<noteq> 247) then n - 32
         else if n = 255 then 376
         else if n = 181 then 924
         else n)"

text \<open>
  \<open>matchHere r prev s\<close>: the atoms \<open>r\<close> match at the current position, where \<open>prev\<close>
  is the character before the position (or \<open>None\<close> at the start of the input) and
  \<open>s\<close> is the rest of the input. \<open>\b\<close> holds where exactly one of the two neighbours is
  a word character.
\<close>

definition wordBefore :: "char option \<Rightarrow> bool" where
  "wordBefore prev = (case prev of None \<Rightarrow> False | Some c \<Rightarrow> isWordChar c)"

definition wordAt :: "string \<Rightarrow> bool" where
  "wordAt s = (case s of [] \<Rightarrow> False | c # _ \<Rightarrow> isWordChar c)"

fun matchHere :: "atom list \<Rightarrow> char option \<Rightarrow> string \<Rightarrow> bool" where
  "matchHere [] prev s = True"
| "matchHere (Boundary # r) prev s = (wordBefore prev \<noteq> wordAt s \<and> matchHere r prev s)"
| "matchHere (Lit c # r) prev [] = False"
| "matchHere (Lit c # r) prev (d # s) =
     (canonicalize c = canonicalize d \<and> matchHere r (Some d) s)"

text \<open>\<open>regex.test(s)\<close> without the global flag: a match at some start position.\<close>

fun matchFrom :: "atom list \<Rightarrow> char option \<Rightarrow> string \<Rightarrow> bool" where
  "matchFrom r prev [] = matchHere r prev []"
| "matchFrom r prev (d # s) = (matchHere r prev (d # s) \<or> matchFrom r (Some d) s)"

definition regex_test :: "atom list \<Rightarrow> string \<Rightarrow> bool" where
  "regex_test r s = matchFrom r None s"

section \<open>Records\<close>

text \<open>
  An optional property of a JavaScript object is absent (\<open>undefined\<close>), \<open>null\<close> or a
  value.
\<close>

datatype 'a opt = Absent | Null | Val 'a

text \<open>\<open>x ?? d\<close>\<close>

definition nullish :: "'a opt \<Rightarrow> 'a \<Rightarrow> 'a" where
  "nullish x d = (case x of Val v \<Rightarrow> v | _ \<Rightarrow> d)"

text \<open>The truth value of an optional boolean, as in \<open>photo.has_people ? ... : ...\<close>.\<close>

definition truthy :: "bool opt \<Rightarrow> bool" where
  "truthy x = (case x of Val v \<Rightarrow> v | _ \<Rightarrow> False)"

text \<open>The type \<open>Photo\<close> of src/app/page.tsx (the property \<open>id\<close> is \<open>photo_id\<close> here).\<close>

record Photo =
  photo_id :: string
  image_url :: string
  created_at :: string
  storage_path :: "string opt"
  source_url :: "string opt"
  caption :: "string opt"
  tags :: "string list opt"
  colors :: "string list opt"
  embedding :: "real list opt"
  content_type :: "string opt"
  domain_tags :: "string list opt"
  has_people :: "bool opt"
  people_count :: "real opt"
  is_screenshot :: "bool opt"
  vibe_tags :: "string list opt"

text \<open>
  What the platform gives and the repository does not define: the instant of a
  timestamp (\<open>new Date(s).getTime()\<close>, for the well-formed timestamps of the store) and
  the two \<open>Intl.DateTimeFormat\<close> renderings of a date, which depend on the host's locale.
\<close>

record platform =
  getTime :: "string \<Rightarrow> int"
  formatLong :: "string \<Rightarrow> string"
  formatShort :: "string \<Rightarrow> string"

text \<open>
  \<open>xs.sort((a, b) => new Date(b.created_at).getTime() - new Date(a.created_at).getTime())\<close>:
  a stable sort, newest first.
\<close>

definition sortByDate :: "platform \<Rightarrow> Photo list \<Rightarrow> Photo list" where
  "sortByDate env xs = sort_key (\<lambda>p. - getTime env (created_at p)) xs"

section \<open>Text Matcher and Result Merger (src/app/page.tsx, lines 178-335)\<close>

text \<open>The values derived from the search box, whose content is \<open>search\<close>.\<close>

definition searchQuery :: "string \<Rightarrow> string" where
  "searchQuery search = trim search"

definition searchLower :: "string \<Rightarrow> string" where
  "searchLower search = toLowerCase (searchQuery search)"

definition isNoteSearch :: "string \<Rightarrow> bool" where
  "isNoteSearch search = startsWith (searchLower search) ''note:''"

definition dquote :: string where
  "dquote = [CHR 0x22]"

definition isExactPhrase :: "string \<Rightarrow> bool" where
  "isExactPhrase search =
     (length (searchQuery search) > 1 \<and> startsWith (searchQuery search) dquote
      \<and> endsWith (searchQuery search) dquote)"

definition exactTerm :: "string \<Rightarrow> string" where
  "exactTerm search =
     (if isExactPhrase search then toLowerCase (trim (slice_1_m1 (searchQuery search))) else [])"

definition hasSearch :: "string \<Rightarrow> bool" where
  "hasSearch search = (searchQuery search \<noteq> [])"

definition sortedPhotos :: "platform \<Rightarrow> Photo list \<Rightarrow> Photo list" where
  "sortedPhotos env photos = sortByDate env photos"

text \<open>The searchable fields of a photo, in the order both matchers list them.\<close>

definition fieldTexts :: "Photo \<Rightarrow> string list" where
  "fieldTexts photo =
     [nullish (caption photo) []] @ nullish (tags photo) [] @ nullish (colors photo) []
     @ [nullish (content_type photo) []] @ nullish (domain_tags photo) []
     @ nullish (vibe_tags photo) []
     @ [if truthy (has_people photo) then ''people'' else [],
        if truthy (is_screenshot photo) then ''screenshot'' else []]"

definition tokens :: "Photo \<Rightarrow> string list" where
  "tokens photo = map toLowerCase (fieldTexts photo)"

text \<open>One round of \<open>tokens.forEach\<close>: the best score so far, after \<open>token\<close>.\<close>

definition scoreToken :: "string \<Rightarrow> string \<Rightarrow> real \<Rightarrow> real" where
  "scoreToken query token best =
     (if token = [] then best
      else if str_includes token query then max best 1
      else max best (similarity query token))"

definition bestScore :: "string \<Rightarrow> Photo \<Rightarrow> real" where
  "bestScore query photo = fold (scoreToken query) (tokens photo) 0"

text \<open>
  \<open>scored.sort((a, b) => b.score - a.score)\<close> is a stable sort, highest score first.
\<close>

definition byScore :: "('a \<times> real) list \<Rightarrow> ('a \<times> real) list" where
  "byScore scored = sort_key (\<lambda>s. - snd s) scored"

definition fuzzyMatches :: "platform \<Rightarrow> string \<Rightarrow> Photo list \<Rightarrow> Photo list" where
  "fuzzyMatches env search photos =
     (let query = searchLower search in
      if isNoteSearch search \<or> isExactPhrase search \<or> length query < 3 then []
      else map fst (byScore (filter (\<lambda>s. snd s \<ge> 0.42)
             (map (\<lambda>photo. (photo, bestScore query photo)) (sortedPhotos env photos)))))"

definition haystack :: "platform \<Rightarrow> Photo \<Rightarrow> string" where
  "haystack env photo =
     toLowerCase (join_sp (fieldTexts photo
        @ [formatLong env (created_at photo), formatShort env (created_at photo)]))"

definition boundedPattern :: "string \<Rightarrow> string" where
  "boundedPattern term = [backslash, CHR ''b''] @ escapeRegExp term @ [backslash, CHR ''b'']"

text \<open>
  \<open>fallbackFiltered\<close> is \<open>None\<close> where \<open>new RegExp\<close> does not accept the pattern (it
  throws a SyntaxError there).
\<close>

definition fallbackFiltered :: "platform \<Rightarrow> string \<Rightarrow> Photo list \<Rightarrow> Photo list option" where
  "fallbackFiltered env search photos =
     (let query = searchLower search in
      if query = [] then Some (sortedPhotos env photos)
      else if isExactPhrase search \<and> exactTerm search = [] then Some (sortedPhotos env photos)
      else
        (case (if isExactPhrase search \<and> exactTerm search \<noteq> []
               then map_option Some (compile (boundedPattern (exactTerm search)))
               else Some None) of
           None \<Rightarrow> None
         | Some regex \<Rightarrow>
             Some (filter (\<lambda>photo.
                     case regex of
                       Some r \<Rightarrow> regex_test r (haystack env photo)
                     | None \<Rightarrow> str_includes (haystack env photo) query)
                   (sortedPhotos env photos))))"

text \<open>
  The two \<open>forEach\<close> loops of the merger: a photo is appended unless its id has been
  seen.
\<close>

definition pushUnseen :: "Photo \<Rightarrow> string set \<times> Photo list \<Rightarrow> string set \<times> Photo list" where
  "pushUnseen p acc =
     (if photo_id p \<in> fst acc then acc else (insert (photo_id p) (fst acc), snd acc @ [p]))"

definition mergeById :: "Photo list \<Rightarrow> Photo list \<Rightarrow> Photo list" where
  "mergeById fuzzy fallback = snd (fold pushUnseen fallback (fold pushUnseen fuzzy ({}, [])))"

text \<open>\<open>semanticPhotos\<close> is \<open>null\<close> (\<open>None\<close>) or a list of photos.\<close>

definition displayPhotos ::
  "platform \<Rightarrow> string \<Rightarrow> Photo list option \<Rightarrow> Photo list \<Rightarrow> Photo list option" where
  "displayPhotos env search semanticPhotos photos =
     (case fallbackFiltered env search photos of
        None \<Rightarrow> None
      | Some fallback \<Rightarrow>
          Some (if \<not> hasSearch search \<or> isNoteSearch search then sortedPhotos env photos
                else if isExactPhrase search then sortByDate env fallback
                else
                  (case semanticPhotos of
                     Some (s # sp) \<Rightarrow> sortByDate env (s # sp)
                   | _ \<Rightarrow>
                       (let fuzzy = fuzzyMatches env search photos in
                        if fuzzy \<noteq> [] then sortByDate env (mergeById fuzzy fallback)
                        else sortByDate env fallback))))"

section \<open>Semantic search (src/unnamed/part_002, second file, and page.tsx, lines 631-656)\<close>

text \<open>The loop of \<open>cosineSimilarity\<close>: the three sums after index \<open>i\<close>.\<close>

definition cosStep :: "real list \<Rightarrow> real list \<Rightarrow> nat \<Rightarrow> real \<times> real \<times> real \<Rightarrow> real \<times> real \<times> real" where
  "cosStep a b i acc =
     (case acc of (dot, magA, magB) \<Rightarrow>
        (dot + a ! i * b ! i, magA + a ! i * a ! i, magB + b ! i * b ! i))"

definition cosineSimilarity :: "real list \<Rightarrow> real list \<Rightarrow> real" where
  "cosineSimilarity a b =
     (let len = min (length a) (length b) in
      case fold (cosStep a b) [0..<len] (0, 0, 0) of (dot, magA, magB) \<Rightarrow>
        if magA = 0 \<or> magB = 0 then 0 else dot / (sqrt magA * sqrt magB))"

definition MIN_SCORE :: real where
  "MIN_SCORE = 0.28"

definition MAX_RESULTS :: nat where
  "MAX_RESULTS = 40"

text \<open>The rows with an array in \<open>embedding\<close>, each with its score.\<close>

definition scored :: "real list \<Rightarrow> Photo list \<Rightarrow> (Photo \<times> real) list" where
  "scored queryEmbedding data =
     map (\<lambda>p. (p, cosineSimilarity queryEmbedding (nullish (embedding p) [])))
       (filter (\<lambda>p. case embedding p of Val _ \<Rightarrow> True | _ \<Rightarrow> False) data)"

definition top_photos :: "real list \<Rightarrow> Photo list \<Rightarrow> Photo list" where
  "top_photos queryEmbedding data =
     map fst (take MAX_RESULTS (byScore (filter (\<lambda>s. snd s \<ge> MIN_SCORE)
       (scored queryEmbedding data))))"

text \<open>
  The handler \<open>POST\<close> of the semantic-search endpoint. What the embedding service and
  the store answer are inputs: a call that throws is \<open>Threw\<close>; the store answers an
  error or its rows (\<open>data\<close> may be \<open>null\<close>).
\<close>

datatype 'a outcome = Threw | Returned 'a

datatype rows = StoreError | StoreData "Photo list option"

datatype response = Status400 string | Status500 string | Json200 "Photo list"

definition falsy :: "string opt \<Rightarrow> bool" where
  "falsy x = (nullish x [] = [])"

definition semanticSearch_POST ::
  "string opt \<Rightarrow> string opt \<Rightarrow> real list option outcome \<Rightarrow> rows \<Rightarrow> response" where
  "semanticSearch_POST query ownerId embedRes stored =
     (let text = trim (nullish query []) in
      if text = [] then Status400 ''Missing query''
      else if falsy ownerId then Status400 ''Missing ownerId''
      else
        (case embedRes of
           Threw \<Rightarrow> Status500 ''Error performing semantic search''
         | Returned None \<Rightarrow> Status500 ''Embedding failed''
         | Returned (Some queryEmbedding) \<Rightarrow>
             (case stored of
                StoreError \<Rightarrow> Status500 ''Error fetching photos''
              | StoreData data \<Rightarrow>
                  Json200 (top_photos queryEmbedding (case data of None \<Rightarrow> [] | Some d \<Rightarrow> d)))))"

text \<open>
  The client's side: what the effect on \<open>search\<close> does once its request has an outcome.
  The request is rejected (\<open>NetworkError\<close>) or answered with a status that is \<open>ok\<close> or
  not and a body that parses as JSON or not; \<open>json.photos\<close> is an optional property.
  The state holds \<open>semanticPhotos\<close>, the messages shown with \<open>alert\<close> and the lines
  written with \<open>console.error\<close>.
\<close>

datatype body = Unparsable | Json "Photo list opt"

datatype fetched = NetworkError | HttpResponse bool body

record view =
  semanticPhotos :: "Photo list option"
  alerts :: "string list"
  console :: "string list"

definition requestIssued :: "string \<Rightarrow> string option \<Rightarrow> bool" where
  "requestIssued search ownerId =
     (\<not> (trim search = [] \<or> isNoteSearch search \<or> isExactPhrase search
         \<or> ownerId = None \<or> ownerId = Some []))"

definition semanticSearchEffect :: "string \<Rightarrow> string option \<Rightarrow> fetched \<Rightarrow> view \<Rightarrow> view" where
  "semanticSearchEffect search ownerId res st =
     (if \<not> requestIssued search ownerId then st\<lparr>semanticPhotos := None\<rparr>
      else
        (case res of
           HttpResponse True (Json photos) \<Rightarrow>
             st\<lparr>semanticPhotos := (case photos of Val ps \<Rightarrow> Some ps | _ \<Rightarrow> None)\<rparr>
         | _ \<Rightarrow>
             st\<lparr>semanticPhotos := None, console := console st @ [''semantic search error:'']\<rparr>))"

text \<open>
  What the client's \<open>fetch\<close> sees of the endpoint's answer: a status 400 or 500 is not
  \<open>ok\<close> (its body is a plain message); the status 200 carries \<open>{ photos: top }\<close>.
\<close>

definition deliver :: "response \<Rightarrow> fetched" where
  "deliver r =
     (case r of
        Json200 ps \<Rightarrow> HttpResponse True (Json (Val ps))
      | Status400 msg \<Rightarrow> HttpResponse False Unparsable
      | Status500 msg \<Rightarrow> HttpResponse False Unparsable)"

section \<open>Reconciliation Loop (src/app/page.tsx, lines 90-95 and 475-629)\<close>

text \<open>
  The object spread \<open>{ ...p, ...updated }\<close>: every property that \<open>updated\<close> carries, a
  \<open>null\<close> included, replaces the property of \<open>p\<close>; a property that \<open>updated\<close> lacks
  keeps the value of \<open>p\<close>. The three required properties are always carried.
\<close>

definition over :: "'a opt \<Rightarrow> 'a opt \<Rightarrow> 'a opt" where
  "over old new = (case new of Absent \<Rightarrow> old | _ \<Rightarrow> new)"


text \<open>
  The state of the loop: the Snapshot \<open>photos\<close> and the two refs that an effect copies
  from it after each render.
\<close>

record feed =
  photos :: "Photo list"
  photosRef :: "Photo list"
  latestCreatedAtRef :: "string option"

text \<open>The updater of \<open>addPhotoIfNew\<close>, and \<open>addPhotoIfNew\<close> itself.\<close>

definition addIfNew :: "Photo \<Rightarrow> Photo list \<Rightarrow> Photo list" where
  "addIfNew photo prev =
     (if \<exists>p \<in> set prev. photo_id p = photo_id photo then prev else photo # prev)"

definition addPhotoIfNew :: "Photo \<Rightarrow> feed \<Rightarrow> feed" where
  "addPhotoIfNew photo st = st\<lparr>photos := addIfNew photo (photos st)\<rparr>"

text \<open>The filter of \<open>loadPhotos\<close>: the first row of each id.\<close>

fun unique :: "string set \<Rightarrow> Photo list \<Rightarrow> Photo list" where
  "unique seen [] = []"
| "unique seen (p # ps) =
     (if photo_id p \<in> seen then unique seen ps
      else p # unique (insert (photo_id p) seen) ps)"

definition loadPhotos :: "rows \<Rightarrow> feed \<Rightarrow> feed" where
  "loadPhotos res st =
     (case res of
        StoreError \<Rightarrow> st
      | StoreData None \<Rightarrow> st
      | StoreData (Some data) \<Rightarrow>
          st\<lparr>photos := unique {} data,
             latestCreatedAtRef :=
               (case data of [] \<Rightarrow> latestCreatedAtRef st | d # _ \<Rightarrow> Some (created_at d))\<rparr>)"


text \<open>The effect on \<open>photos\<close> that refreshes the two refs.\<close>

definition syncRefs :: "feed \<Rightarrow> feed" where
  "syncRefs st =
     st\<lparr>latestCreatedAtRef :=
          (case photos st of [] \<Rightarrow> latestCreatedAtRef st | p # _ \<Rightarrow> Some (created_at p)),
        photosRef := photos st\<rparr>"




text \<open>
  \<open>pollForNew\<close>, when the document is visible or not. The rows are those the store
  returns for the request; they are checked against \<open>photosRef\<close>.
\<close>

definition pollForNew :: "string option \<Rightarrow> bool \<Rightarrow> rows \<Rightarrow> feed \<Rightarrow> feed" where
  "pollForNew ownerId visible res st =
     (if ownerId = None \<or> ownerId = Some [] then st
      else if \<not> visible then st
      else if latestCreatedAtRef st = None \<or> latestCreatedAtRef st = Some [] then st
      else
        (case res of
           StoreData (Some (d # ds)) \<Rightarrow>
             (let existing = set (map photo_id (photosRef st));
                  newOnes = filter (\<lambda>p. photo_id p \<notin> existing) (d # ds)
              in if newOnes \<noteq> [] then st\<lparr>photos := newOnes @ photos st\<rparr> else st)
         | _ \<Rightarrow> st))"

text \<open>
  The sources that insert, as events, and the effect that follows a render. A run is a
  sequence of events, applied in order.
\<close>

datatype event =
    InitialLoad rows
  | RealtimeInsert Photo
  | NewPoll rows
  | Rendered

fun step :: "string option \<Rightarrow> event \<Rightarrow> feed \<Rightarrow> feed" where
  "step ownerId (InitialLoad res) st = loadPhotos res st"
| "step ownerId (RealtimeInsert photo) st = addPhotoIfNew photo st"
| "step ownerId (NewPoll res) st = pollForNew ownerId True res st"
| "step ownerId Rendered st = syncRefs st"

definition run :: "string option \<Rightarrow> event list \<Rightarrow> feed \<Rightarrow> feed" where
  "run ownerId events st = fold (step ownerId) events st"

section \<open>Token allowlist (src/lib/allowedEmails.ts, second file)\<close>

record entry =
  token :: string
  ownerId :: string

definition tokenOwners :: "entry list" where
  "tokenOwners =
     [\<lparr>token = ''kb2RJVeoF_7fY-zK4ZUv-DG'', ownerId = ''8694ca67-e244-4ad3-b5f0-9d8ac6551e92''\<rparr>,
      \<lparr>token = ''RVmm-LL2kQcT6fHGPXb4ui@'', ownerId = ''6cf55fd2-64f7-41ee-af7e-e37019119bfb''\<rparr>]"

text \<open>
  The argument is an optional string: \<open>Absent\<close> or \<open>Null\<close> when the caller gives none.
\<close>

definition ownerIdForToken :: "string opt \<Rightarrow> string option" where
  "ownerIdForToken tok =
     (if falsy tok then None
      else
        (case find (\<lambda>e. toLowerCase (trim (token e)) = toLowerCase (trim (nullish tok [])))
                tokenOwners of
           Some found \<Rightarrow> Some (ownerId found)
         | None \<Rightarrow> None))"

section \<open>Definitions for the proofs\<close>

text \<open>
  The row of a photo that has just been inserted (\<open>uploadFile\<close> inserts the image's
  address, its path and the owner): every property that enrichment writes is \<open>null\<close>.
\<close>

definition inserted :: "string \<Rightarrow> string \<Rightarrow> Photo" where
  "inserted i t =
     \<lparr> photo_id = i, image_url = ''https://img'', created_at = t,
       storage_path = Null, source_url = Null, caption = Null, tags = Null, colors = Null,
       embedding = Null, content_type = Null, domain_tags = Null, has_people = Null,
       people_count = Null, is_screenshot = Null, vibe_tags = Null \<rparr>"

text \<open>
  A host for the examples: three timestamps with their instants and their renderings in
  the locale en-US.
\<close>

definition example_host :: platform where
  "example_host =
     \<lparr> getTime = (\<lambda>s. if s = ''2024-01-01'' then 1704067200000
                      else if s = ''2024-01-02'' then 1704153600000
                      else if s = ''2024-01-03'' then 1704240000000 else 0),
       formatLong = (\<lambda>s. if s = ''2024-01-01'' then ''January 1, 2024''
                      else if s = ''2024-01-02'' then ''January 2, 2024''
                      else if s = ''2024-01-03'' then ''January 3, 2024'' else []),
       formatShort = (\<lambda>s. if s = ''2024-01-01'' then ''Jan 1, 2024''
                      else if s = ''2024-01-02'' then ''Jan 2, 2024''
                      else if s = ''2024-01-03'' then ''Jan 3, 2024'' else []) \<rparr>"

text \<open>
  The three records of the end-to-end example, each with its id and its timestamp: one
  tagged cozy and knit, one with the caption "a kozy evening", one without any text.
\<close>

definition cozy_knit :: "string \<Rightarrow> string \<Rightarrow> Photo" where
  "cozy_knit i t = (inserted i t)\<lparr>tags := Val [''cozy'', ''knit'']\<rparr>"

definition kozy_evening :: "string \<Rightarrow> string \<Rightarrow> Photo" where
  "kozy_evening i t = (inserted i t)\<lparr>caption := Val ''a kozy evening''\<rparr>"

definition unrelated :: "string \<Rightarrow> string \<Rightarrow> Photo" where
  "unrelated i t = inserted i t"

text \<open>The exact-phrase query \<open>"Cozy"\<close>, with its quotes.\<close>

definition quoted_cozy :: string where
  "quoted_cozy = CHR 0x22 # ''Cozy'' @ [CHR 0x22]"

text \<open>The exact-phrase query of two quotes with nothing between them.\<close>

definition quoted_nothing :: string where
  "quoted_nothing = [CHR 0x22, CHR 0x22]"




text \<open>
  Whole-word occurrence, in the specification's words: \<open>t\<close> occurs in \<open>h\<close>, up to
  letter case, with a word boundary on each side. A word boundary is a position where
  exactly one of the two neighbouring characters is a word character; the ends of
  \<open>h\<close> count as not a word character.
\<close>

definition endsInWord :: "string \<Rightarrow> bool" where
  "endsInWord s = (case rev s of [] \<Rightarrow> False | c # _ \<Rightarrow> isWordChar c)"

definition occursAsWord :: "string \<Rightarrow> string \<Rightarrow> bool" where
  "occursAsWord t h \<longleftrightarrow>
     (\<exists>pre mid post. h = pre @ mid @ post
        \<and> map canonicalize mid = map canonicalize t
        \<and> endsInWord pre \<noteq> wordAt (mid @ post)
        \<and> endsInWord (pre @ mid) \<noteq> wordAt post)"

text \<open>The character before a position that lies \<open>xs\<close> after a position with \<open>prev\<close> before it.\<close>

definition lastOr :: "char option \<Rightarrow> string \<Rightarrow> char option" where
  "lastOr prev xs = (case rev xs of [] \<Rightarrow> prev | c # _ \<Rightarrow> Some c)"

text \<open>The table has \<open>al + 1\<close> rows of \<open>bl + 1\<close> cells.\<close>

definition dims :: "nat \<Rightarrow> nat \<Rightarrow> nat list list \<Rightarrow> bool" where
  "dims al bl dp \<longleftrightarrow> length dp = al + 1 \<and> (\<forall>i \<le> al. length (dp ! i) = bl + 1)"

text \<open>
  The loop invariant of \<open>levenshtein\<close>: when the loops are at \<open>(i, j)\<close>, the first
  column, every row above \<open>i\<close> and the cells of row \<open>i\<close> left of \<open>j\<close> hold the
  recurrence.
\<close>

definition filled :: "string \<Rightarrow> string \<Rightarrow> nat list list \<Rightarrow> nat \<Rightarrow> nat \<Rightarrow> bool" where
  "filled a b dp i j \<longleftrightarrow>
     dims (length a) (length b) dp \<and>
     (\<forall>i' j'. i' \<le> length a \<and> j' \<le> length b \<and> (i' < i \<or> (i' = i \<and> j' < j) \<or> j' = 0)
        \<longrightarrow> dp ! i' ! j' = lev a b i' j')"

section \<open>Properties of the String Similarity Engine\<close>

lemma lev_0_right [simp]: "lev a b i 0 = i"
  by (cases i) simp_all

lemma lev_same: "lev a a i i = 0"
  by (induction i) simp_all

lemma lev_le_max: "lev a b i j \<le> max i j"
proof (induction a b i j rule: lev.induct)
  case (3 a b i j)
  have "lev a b (Suc i) (Suc j) \<le> lev a b i j + (if a ! i = b ! j then 0 else 1)"
    by simp
  also have "\<dots> \<le> max i j + 1"
    using "3.IH"(3) by simp
  finally show ?case by simp
qed simp_all

lemma lev_sym: "lev a b i j = lev b a j i"
proof (induction a b i j rule: lev.induct)
  case (3 a b i j)
  have "(a ! i = b ! j) = (b ! j = a ! i)" by auto
  with 3 show ?case by (simp add: min.commute)
qed simp_all

subsection \<open>The table holds the recurrence\<close>

lemma nth_put:
  "i < length dp \<Longrightarrow> j < length (dp ! i) \<Longrightarrow>
   put dp i j v ! i' ! j' = (if i' = i \<and> j' = j then v else dp ! i' ! j')"
  by (cases "i' = i") (auto simp: put_def nth_list_update)

lemma dims_put: "dims al bl dp \<Longrightarrow> i \<le> al \<Longrightarrow> dims al bl (put dp i j v)"
  by (auto simp: dims_def put_def nth_list_update)

lemma dims_new_table: "dims al bl (new_table al bl)"
  by (auto simp: dims_def new_table_def nth_Cons')

lemma init_col_inv:
  "dims al bl dp \<Longrightarrow> n \<le> al + 1 \<Longrightarrow>
   dims al bl (fold (\<lambda>i t. put t i 0 i) [0..<n] dp) \<and>
   (\<forall>i < n. fold (\<lambda>i t. put t i 0 i) [0..<n] dp ! i ! 0 = i)"
proof (induction n)
  case 0
  then show ?case by simp
next
  case (Suc n)
  let ?t = "fold (\<lambda>i t. put t i 0 i) [0..<n] dp"
  from Suc have d: "dims al bl ?t" and v: "\<forall>i < n. ?t ! i ! 0 = i" and n: "n \<le> al"
    by simp_all
  have r: "n < length ?t" "0 < length (?t ! n)"
    using d n by (simp_all add: dims_def)
  show ?case
    using d n v by (simp add: dims_put nth_put [OF r] less_Suc_eq)
qed

lemma init_row_inv:
  "dims al bl dp \<Longrightarrow> n \<le> bl + 1 \<Longrightarrow>
   dims al bl (fold (\<lambda>j t. put t 0 j j) [0..<n] dp) \<and>
   (\<forall>j < n. fold (\<lambda>j t. put t 0 j j) [0..<n] dp ! 0 ! j = j) \<and>
   (\<forall>i. 0 < i \<longrightarrow> fold (\<lambda>j t. put t 0 j j) [0..<n] dp ! i = dp ! i)"
proof (induction n)
  case 0
  then show ?case by simp
next
  case (Suc n)
  let ?t = "fold (\<lambda>j t. put t 0 j j) [0..<n] dp"
  from Suc have d: "dims al bl ?t" and v: "\<forall>j < n. ?t ! 0 ! j = j"
    and o: "\<forall>i. 0 < i \<longrightarrow> ?t ! i = dp ! i" and n: "n \<le> bl"
    by simp_all
  have r: "0 < length ?t" "n < length (?t ! 0)"
    using d n by (simp_all add: dims_def)
  have "\<forall>i. 0 < i \<longrightarrow> put ?t 0 n n ! i = dp ! i"
    using o by (simp add: put_def)
  then show ?case
    using d n v by (simp add: dims_put nth_put [OF r] less_Suc_eq)
qed

lemma filled_init:
  "filled a b (init_row (length b) (init_col (length a) (new_table (length a) (length b)))) 1 1"
proof -
  let ?al = "length a" and ?bl = "length b"
  let ?c = "init_col ?al (new_table ?al ?bl)"
  have c: "dims ?al ?bl ?c" "\<forall>i < ?al + 1. ?c ! i ! 0 = i"
    using init_col_inv [OF dims_new_table, of "?al + 1" ?al ?bl]
    by (simp_all add: init_col_def)
  have r: "dims ?al ?bl (init_row ?bl ?c)" "\<forall>j < ?bl + 1. init_row ?bl ?c ! 0 ! j = j"
    "\<forall>i. 0 < i \<longrightarrow> init_row ?bl ?c ! i = ?c ! i"
    using init_row_inv [OF c(1), of "?bl + 1"] by (simp_all add: init_row_def)
  show ?thesis
    unfolding filled_def
  proof (intro conjI allI impI)
    show "dims ?al ?bl (init_row ?bl ?c)" by (rule r(1))
  next
    fix i' j'
    assume h: "i' \<le> ?al \<and> j' \<le> ?bl \<and> (i' < 1 \<or> i' = 1 \<and> j' < 1 \<or> j' = 0)"
    show "init_row ?bl ?c ! i' ! j' = lev a b i' j'"
    proof (cases "i' = 0")
      case True
      with h r(2) show ?thesis by simp
    next
      case False
      with h have "j' = 0" by auto
      with False h r(3) c(2) show ?thesis by simp
    qed
  qed
qed

lemma filled_cell:
  assumes f: "filled a b dp i j" and i: "1 \<le> i" "i \<le> length a" and j: "1 \<le> j" "j \<le> length b"
  shows "filled a b (cell a b i j dp) i (Suc j)"
proof -
  obtain i0 j0 where ij: "i = Suc i0" "j = Suc j0"
    using i j by (cases i; cases j) auto
  have d: "dims (length a) (length b) dp" using f by (simp add: filled_def)
  have r: "i < length dp" "j < length (dp ! i)"
    using d i j by (simp_all add: dims_def)
  have g: "\<And>i' j'. i' \<le> length a \<Longrightarrow> j' \<le> length b \<Longrightarrow> (i' < i \<or> (i' = i \<and> j' < j) \<or> j' = 0)
        \<Longrightarrow> dp ! i' ! j' = lev a b i' j'"
    using f by (simp add: filled_def)
  have e1: "dp ! i0 ! j = lev a b i0 j" using g [of i0 j] i j ij by simp
  have e2: "dp ! i ! j0 = lev a b i j0" using g [of i j0] i j ij by simp
  have e3: "dp ! i0 ! j0 = lev a b i0 j0" using g [of i0 j0] i j ij by simp
  have v: "cell a b i j dp = put dp i j (lev a b i j)"
    using e1 e2 e3 by (simp add: cell_def ij)
  show ?thesis
    unfolding filled_def v
  proof (intro conjI allI impI)
    show "dims (length a) (length b) (put dp i j (lev a b i j))"
      using d i by (simp add: dims_put)
  next
    fix i' j'
    assume h: "i' \<le> length a \<and> j' \<le> length b \<and> (i' < i \<or> i' = i \<and> j' < Suc j \<or> j' = 0)"
    show "put dp i j (lev a b i j) ! i' ! j' = lev a b i' j'"
    proof (cases "i' = i \<and> j' = j")
      case True
      then show ?thesis by (simp add: nth_put [OF r])
    next
      case False
      with h have "i' < i \<or> (i' = i \<and> j' < j) \<or> j' = 0" by auto
      with h False show ?thesis by (simp add: nth_put [OF r] g)
    qed
  qed
qed

lemma filled_row_upto:
  "filled a b dp i 1 \<Longrightarrow> 1 \<le> i \<Longrightarrow> i \<le> length a \<Longrightarrow> n \<le> length b \<Longrightarrow>
   filled a b (fold (cell a b i) [1..<Suc n] dp) i (Suc n)"
proof (induction n)
  case 0
  then show ?case by simp
next
  case (Suc n)
  then have "filled a b (fold (cell a b i) [1..<Suc n] dp) i (Suc n)" by simp
  from filled_cell [OF this] Suc.prems show ?case by simp
qed

lemma filled_next_row:
  assumes "filled a b dp i (Suc (length b))"
  shows "filled a b dp (Suc i) 1"
  unfolding filled_def
proof (intro conjI allI impI)
  show "dims (length a) (length b) dp" using assms by (simp add: filled_def)
next
  fix i' j'
  assume h: "i' \<le> length a \<and> j' \<le> length b \<and> (i' < Suc i \<or> i' = Suc i \<and> j' < 1 \<or> j' = 0)"
  then have "i' < i \<or> (i' = i \<and> j' < Suc (length b)) \<or> j' = 0" by auto
  with h assms show "dp ! i' ! j' = lev a b i' j'"
    unfolding filled_def by blast
qed

lemma filled_fill_row:
  assumes "filled a b dp i 1" "1 \<le> i" "i \<le> length a"
  shows "filled a b (fill_row a b i dp) (Suc i) 1"
proof -
  have "filled a b (fold (cell a b i) [1..<Suc (length b)] dp) i (Suc (length b))"
    by (rule filled_row_upto) (use assms in simp_all)
  then have "filled a b (fill_row a b i dp) i (Suc (length b))"
    by (simp add: fill_row_def del: upt_Suc)
  then show ?thesis by (rule filled_next_row)
qed

lemma filled_rows_upto:
  "filled a b dp 1 1 \<Longrightarrow> n \<le> length a \<Longrightarrow>
   filled a b (fold (fill_row a b) [1..<Suc n] dp) (Suc n) 1"
proof (induction n)
  case 0
  then show ?case by simp
next
  case (Suc n)
  then have "filled a b (fold (fill_row a b) [1..<Suc n] dp) (Suc n) 1" by simp
  from filled_fill_row [OF this] Suc.prems show ?case by simp
qed

lemma fill_lev:
  "fill a b (init_row (length b) (init_col (length a) (new_table (length a) (length b))))
     ! length a ! length b = lev a b (length a) (length b)"
proof -
  let ?t = "init_row (length b) (init_col (length a) (new_table (length a) (length b)))"
  have "filled a b (fold (fill_row a b) [1..<Suc (length a)] ?t) (Suc (length a)) 1"
    by (rule filled_rows_upto) (rule filled_init, simp)
  then have "filled a b (fill a b ?t) (Suc (length a)) 1"
    by (simp add: fill_def del: upt_Suc)
  then show ?thesis by (simp add: filled_def)
qed

lemma levenshtein_lev: "levenshtein a b = lev a b (length a) (length b)"
  by (simp add: levenshtein_def Let_def fill_lev lev_same)

subsection \<open>The recursion is the cheapest edit script\<close>

lemma edits_inserts: "edits (length ys) [] ys"
  by (induction ys) (auto intro: edits.intros)

lemma edits_deletes: "edits (length xs) xs []"
  by (induction xs) (auto intro: edits.intros)

lemma edits_editDistance: "edits (editDistance xs ys) xs ys"
proof (induction xs ys rule: editDistance.induct)
  case (1 ys)
  then show ?case by (simp add: edits_inserts)
next
  case (2 x xs)
  then show ?case using edits_deletes [of "x # xs"] by simp
next
  case (3 x xs y ys)
  let ?d = "editDistance xs (y # ys) + 1" and ?i = "editDistance (x # xs) ys + 1"
    and ?s = "editDistance xs ys + (if x = y then 0 else 1)"
  have d: "edits ?d (x # xs) (y # ys)" using "3.IH"(1) by (simp add: edits.delete)
  have i: "edits ?i (x # xs) (y # ys)" using "3.IH"(2) by (simp add: edits.insert)
  have s: "edits ?s (x # xs) (y # ys)"
    using "3.IH"(3) by (auto intro: edits.keep edits.substitute)
  have "min (min ?d ?i) ?s = ?d \<or> min (min ?d ?i) ?s = ?i \<or> min (min ?d ?i) ?s = ?s"
    by linarith
  with d i s show ?case by (auto simp only: editDistance.simps)
qed

lemma editDistance_Nil_right [simp]: "editDistance xs [] = length xs"
  by (cases xs) simp_all

lemma editDistance_delete: "editDistance (x # xs) ys \<le> Suc (editDistance xs ys)"
  by (cases ys) simp_all

lemma editDistance_insert: "editDistance xs (y # ys) \<le> Suc (editDistance xs ys)"
  by (cases xs) simp_all

lemma editDistance_substitute: "editDistance (x # xs) (y # ys) \<le> Suc (editDistance xs ys)"
proof -
  have "editDistance (x # xs) (y # ys) \<le> editDistance xs ys + (if x = y then 0 else 1)"
    by simp
  also have "\<dots> \<le> Suc (editDistance xs ys)" by simp
  finally show ?thesis .
qed

lemma editDistance_keep: "editDistance (x # xs) (x # ys) \<le> editDistance xs ys"
  by simp

lemma edits_lower: "edits n xs ys \<Longrightarrow> editDistance xs ys \<le> n"
proof (induction rule: edits.induct)
  case finish
  then show ?case by simp
next
  case (delete n xs ys x)
  then show ?case using editDistance_delete [of x xs ys] by linarith
next
  case (insert n xs ys y)
  then show ?case using editDistance_insert [of xs y ys] by linarith
next
  case (keep n xs ys x)
  then show ?case using editDistance_keep [of x xs ys] by linarith
next
  case (substitute n xs ys x y)
  then show ?case using editDistance_substitute [of x xs y ys] by linarith
qed

subsection \<open>Edit scripts read from the other end\<close>

lemma edits_delete_last: "edits n xs ys \<Longrightarrow> edits (Suc n) (xs @ [x]) ys"
proof (induction rule: edits.induct)
  case finish
  show ?case using edits.delete [OF edits.finish, of x] by simp
qed (auto intro: edits.intros)

lemma edits_insert_last: "edits n xs ys \<Longrightarrow> edits (Suc n) xs (ys @ [y])"
proof (induction rule: edits.induct)
  case finish
  show ?case using edits.insert [OF edits.finish, of y] by simp
qed (auto intro: edits.intros)

lemma edits_keep_last: "edits n xs ys \<Longrightarrow> edits n (xs @ [x]) (ys @ [x])"
proof (induction rule: edits.induct)
  case finish
  show ?case using edits.keep [OF edits.finish, of x] by simp
qed (auto intro: edits.intros)

lemma edits_substitute_last: "edits n xs ys \<Longrightarrow> edits (Suc n) (xs @ [x]) (ys @ [y])"
proof (induction rule: edits.induct)
  case finish
  show ?case using edits.substitute [OF edits.finish, of x y] by simp
qed (auto intro: edits.intros)

lemma edits_rev: "edits n xs ys \<Longrightarrow> edits n (rev xs) (rev ys)"
  by (induction rule: edits.induct)
    (auto intro: edits.finish edits_delete_last edits_insert_last edits_keep_last
      edits_substitute_last)

lemma editDistance_rev: "editDistance (rev xs) (rev ys) = editDistance xs ys"
proof (rule antisym)
  show "editDistance (rev xs) (rev ys) \<le> editDistance xs ys"
    by (rule edits_lower, rule edits_rev, rule edits_editDistance)
  have "edits (editDistance (rev xs) (rev ys)) (rev (rev xs)) (rev (rev ys))"
    by (rule edits_rev, rule edits_editDistance)
  then show "editDistance xs ys \<le> editDistance (rev xs) (rev ys)"
    by (simp add: edits_lower)
qed

subsection \<open>The recurrence of the table is the edit distance of the prefixes\<close>

lemma lev_editDistance:
  "i \<le> length a \<Longrightarrow> j \<le> length b \<Longrightarrow>
   lev a b i j = editDistance (rev (take i a)) (rev (take j b))"
proof (induction a b i j rule: lev.induct)
  case (1 a b j)
  then show ?case by simp
next
  case (2 a b i)
  then show ?case by simp
next
  case (3 a b i j)
  then have i: "i < length a" and j: "j < length b" by simp_all
  have ta: "rev (take (Suc i) a) = a ! i # rev (take i a)"
    using i by (simp add: take_Suc_conv_app_nth)
  have tb: "rev (take (Suc j) b) = b ! j # rev (take j b)"
    using j by (simp add: take_Suc_conv_app_nth)
  have "lev a b i (Suc j) = editDistance (rev (take i a)) (b ! j # rev (take j b))"
    using "3.IH"(1) i j tb by simp
  moreover have "lev a b (Suc i) j = editDistance (a ! i # rev (take i a)) (rev (take j b))"
    using "3.IH"(2) i j ta by simp
  moreover have "lev a b i j = editDistance (rev (take i a)) (rev (take j b))"
    using "3.IH"(3) i j by simp
  ultimately show ?case
    by (simp only: lev.simps ta tb editDistance.simps)
qed

lemma levenshtein_editDistance: "levenshtein a b = editDistance a b"
  by (simp add: levenshtein_lev lev_editDistance editDistance_rev)

lemma levenshtein_sym: "levenshtein a b = levenshtein b a"
  unfolding levenshtein_lev by (rule lev_sym)

lemma levenshtein_le_max: "levenshtein a b \<le> max (length a) (length b)"
  unfolding levenshtein_lev by (rule lev_le_max)

lemma levenshtein_same: "levenshtein a a = 0"
  by (simp add: levenshtein_def)

lemma ratio_range:
  fixes d n :: nat
  assumes "d \<le> n" "n \<noteq> 0"
  shows "0 \<le> 1 - real d / real n \<and> 1 - real d / real n \<le> 1"
proof -
  have "real d \<le> real n" using assms(1) by simp
  moreover have "0 < real n" using assms(2) by simp
  ultimately have "real d / real n \<le> 1" by (simp add: divide_le_eq_1)
  moreover have "0 \<le> real d / real n" by simp
  ultimately show ?thesis by simp
qed

lemma similarity_range: "0 \<le> similarity a b \<and> similarity a b \<le> 1"
proof (cases "max (length a) (length b) = 0")
  case True
  then show ?thesis by (simp add: similarity_def)
next
  case False
  from ratio_range [OF levenshtein_le_max False] False show ?thesis
    by (simp only: similarity_def Let_def if_False)
qed

text \<open>
  C8. For all strings \<open>a\<close> and \<open>b\<close>, not both empty, \<open>similarity a b\<close> is
  \<open>1 - levenshteinDistance a b / max (length a) (length b)\<close>; it lies between 0 and 1;
  \<open>similarity\<close> of two empty strings is 0; \<open>similarity x x\<close> is 1 for every non-empty
  \<open>x\<close>; and the distance the code computes in its table is the classical unit-cost
  edit distance: the cost of some edit script from \<open>a\<close> to \<open>b\<close>, and of no script more
  than any other.
\<close>

theorem similarity_contract:
  "(a \<noteq> [] \<or> b \<noteq> [] \<longrightarrow>
      similarity a b = 1 - real (levenshteinDistance a b) / real (max (length a) (length b)))
   \<and> 0 \<le> similarity a b \<and> similarity a b \<le> 1
   \<and> similarity [] [] = 0
   \<and> (x \<noteq> [] \<longrightarrow> similarity x x = 1)
   \<and> levenshtein a b = levenshteinDistance a b
   \<and> edits (levenshteinDistance a b) a b
   \<and> (\<forall>n. edits n a b \<longrightarrow> levenshteinDistance a b \<le> n)"
proof (intro conjI impI allI)
  assume "a \<noteq> [] \<or> b \<noteq> []"
  then have "max (length a) (length b) \<noteq> 0" by auto
  then show "similarity a b = 1 - real (levenshteinDistance a b) / real (max (length a) (length b))"
    by (simp add: similarity_def Let_def levenshteinDistance_def levenshtein_editDistance)
next
  show "0 \<le> similarity a b" "similarity a b \<le> 1"
    using similarity_range [of a b] by simp_all
next
  show "similarity [] [] = 0" by (simp add: similarity_def)
next
  assume "x \<noteq> []"
  then show "similarity x x = 1"
    by (simp add: similarity_def levenshtein_same)
next
  show "levenshtein a b = levenshteinDistance a b"
    by (simp add: levenshteinDistance_def levenshtein_editDistance)
next
  show "edits (levenshteinDistance a b) a b"
    by (simp add: levenshteinDistance_def edits_editDistance)
next
  fix n assume "edits n a b"
  then show "levenshteinDistance a b \<le> n"
    by (simp add: levenshteinDistance_def edits_lower)
qed

lemma lev_cozy_kozy: "levenshteinDistance ''cozy'' ''kozy'' = 1"
  by code_simp

theorem similarity_contract_witness:
  "similarity ''cozy'' ''kozy'' = 3 / 4 \<and> similarity ''a'' ''a'' = 1
   \<and> levenshtein ''cozy'' ''kozy'' = 1"
  using similarity_contract [of "''cozy''" "''kozy''" "''a''"] lev_cozy_kozy
  by simp

text \<open>C9. \<open>similarity\<close> is symmetric.\<close>

theorem similarity_symmetric: "similarity a b = similarity b a"
  by (simp add: similarity_def Let_def levenshtein_sym [of a b] max.commute)

lemma tokenOwners_nonempty:
  "\<forall>e \<in> set tokenOwners. toLowerCase (trim (token e)) \<noteq> []"
  by code_simp

lemma ownerIdForToken_find:
  "t \<noteq> [] \<Longrightarrow> ownerIdForToken (Val t) =
     map_option ownerId (find (\<lambda>e. toLowerCase (trim (token e)) = toLowerCase (trim t)) tokenOwners)"
  by (simp add: ownerIdForToken_def falsy_def nullish_def split: option.splits)

lemma find_none_empty:
  "find (\<lambda>e. toLowerCase (trim (token e)) = []) tokenOwners = None"
  using tokenOwners_nonempty by (simp add: find_None_iff)

lemma ownerIdForToken_blank:
  "toLowerCase (trim t) = [] \<Longrightarrow> ownerIdForToken (Val t) = None"
  using find_none_empty
  by (cases "t = []") (simp_all add: ownerIdForToken_find, simp add: ownerIdForToken_def falsy_def nullish_def)

text \<open>
  C10. \<open>ownerIdForToken\<close> returns nothing for a missing, \<open>null\<close> or empty token and for a
  token that no entry of the allowlist equals after trimming and lower-casing both
  sides; otherwise it returns the owner of the first such entry. Two tokens that are
  equal after trimming and lower-casing resolve to the same owner.
\<close>

theorem ownerIdForToken_lookup:
  "ownerIdForToken Absent = None \<and> ownerIdForToken Null = None \<and> ownerIdForToken (Val []) = None
   \<and> ((\<forall>e \<in> set tokenOwners. toLowerCase (trim (token e)) \<noteq> toLowerCase (trim t))
        \<longrightarrow> ownerIdForToken (Val t) = None)
   \<and> (i < length tokenOwners
        \<and> toLowerCase (trim (token (tokenOwners ! i))) = toLowerCase (trim t)
        \<and> (\<forall>j < i. toLowerCase (trim (token (tokenOwners ! j))) \<noteq> toLowerCase (trim t))
        \<longrightarrow> ownerIdForToken (Val t) = Some (ownerId (tokenOwners ! i)))
   \<and> (toLowerCase (trim t) = toLowerCase (trim t') \<longrightarrow>
        ownerIdForToken (Val t) = ownerIdForToken (Val t'))"
proof (intro conjI impI)
  show "ownerIdForToken Absent = None" "ownerIdForToken Null = None" "ownerIdForToken (Val []) = None"
    by (simp_all add: ownerIdForToken_def falsy_def nullish_def)
next
  assume "\<forall>e \<in> set tokenOwners. toLowerCase (trim (token e)) \<noteq> toLowerCase (trim t)"
  then have "find (\<lambda>e. toLowerCase (trim (token e)) = toLowerCase (trim t)) tokenOwners = None"
    by (simp add: find_None_iff)
  then show "ownerIdForToken (Val t) = None"
    by (cases "t = []") (simp_all add: ownerIdForToken_find, simp add: ownerIdForToken_def falsy_def nullish_def)
next
  assume h: "i < length tokenOwners
        \<and> toLowerCase (trim (token (tokenOwners ! i))) = toLowerCase (trim t)
        \<and> (\<forall>j < i. toLowerCase (trim (token (tokenOwners ! j))) \<noteq> toLowerCase (trim t))"
  then have f: "find (\<lambda>e. toLowerCase (trim (token e)) = toLowerCase (trim t)) tokenOwners
             = Some (tokenOwners ! i)"
    by (auto simp: find_Some_iff)
  have "toLowerCase (trim t) \<noteq> []"
    using h tokenOwners_nonempty nth_mem [of i tokenOwners] by metis
  then have "t \<noteq> []" by (auto simp: trim_def toLowerCase_def)
  with f show "ownerIdForToken (Val t) = Some (ownerId (tokenOwners ! i))"
    by (simp add: ownerIdForToken_find)
next
  assume e: "toLowerCase (trim t) = toLowerCase (trim t')"
  show "ownerIdForToken (Val t) = ownerIdForToken (Val t')"
  proof (cases "toLowerCase (trim t) = []")
    case True
    with e show ?thesis by (simp add: ownerIdForToken_blank)
  next
    case False
    then have "t \<noteq> []" "t' \<noteq> []" using e by (auto simp: trim_def toLowerCase_def)
    with e show ?thesis by (simp add: ownerIdForToken_find)
  qed
qed

lemma token_eval:
  "toLowerCase (trim ''  KB2RJVEOF_7FY-ZK4ZUV-DG '') = toLowerCase (trim ''kb2RJVeoF_7fY-zK4ZUv-DG'')"
  by code_simp

lemma token_first: "ownerIdForToken (Val ''kb2RJVeoF_7fY-zK4ZUv-DG'') = Some ''8694ca67-e244-4ad3-b5f0-9d8ac6551e92''"
  by code_simp

lemma token_none: "\<forall>e \<in> set tokenOwners. toLowerCase (trim (token e)) \<noteq> toLowerCase (trim ''nobody'')"
  by code_simp

theorem ownerIdForToken_lookup_witness:
  "ownerIdForToken (Val ''  KB2RJVEOF_7FY-ZK4ZUV-DG '') = Some ''8694ca67-e244-4ad3-b5f0-9d8ac6551e92''
   \<and> ownerIdForToken (Val ''nobody'') = None"
  using ownerIdForToken_lookup [of "''nobody''" 0 "''kb2RJVeoF_7fY-zK4ZUv-DG''"]
    ownerIdForToken_lookup [of "''  KB2RJVEOF_7FY-ZK4ZUV-DG ''" 0 "''kb2RJVeoF_7fY-zK4ZUv-DG''"]
    token_eval token_first token_none
  by simp

lemma insort_key_map:
  "insort_key k (f x) (map f xs) = map f (insort_key (\<lambda>y. k (f y)) x xs)"
  by (induction xs) simp_all

lemma sort_key_map: "sort_key k (map f xs) = map f (sort_key (\<lambda>y. k (f y)) xs)"
  by (induction xs) (simp_all add: insort_key_map)

lemma byScore_pairs:
  "map fst (byScore (map (\<lambda>p. (p, g p)) xs)) = sort_key (\<lambda>p. - g p) xs"
  by (simp add: byScore_def sort_key_map comp_def)








lemma over_simps [simp]:
  "over old Absent = old" "over old Null = Null" "over old (Val v) = Val v"
  by (simp_all add: over_def)






subsection \<open>Where the inserts do keep the ids apart\<close>

lemma addPhotoIfNew_present:
  "photo_id photo \<in> photo_id ` set (photos st) \<Longrightarrow> addPhotoIfNew photo st = st"
  by (auto simp: addPhotoIfNew_def addIfNew_def)

lemma addPhotoIfNew_distinct:
  "distinct (map photo_id (photos st)) \<Longrightarrow> distinct (map photo_id (photos (addPhotoIfNew photo st)))"
  by (auto simp: addPhotoIfNew_def addIfNew_def)

lemma unique_ids: "photo_id ` set (unique seen data) \<inter> seen = {}"
  by (induction data arbitrary: seen) auto

lemma unique_subset: "set (unique seen data) \<subseteq> set data"
  by (induction data arbitrary: seen) auto

lemma unique_distinct: "distinct (map photo_id (unique seen data))"
proof (induction data arbitrary: seen)
  case Nil
  then show ?case by simp
next
  case (Cons p data)
  have "photo_id p \<notin> photo_id ` set (unique (insert (photo_id p) seen) data)"
    using unique_ids [of "insert (photo_id p) seen" data] by auto
  with Cons show ?case by simp
qed

lemma loadPhotos_distinct:
  "distinct (map photo_id (photos (loadPhotos (StoreData (Some data)) st)))"
  by (simp add: loadPhotos_def unique_distinct)

lemma pollForNew_distinct_if_current:
  assumes "photosRef st = photos st" and "distinct (map photo_id (photos st))"
    and "distinct (map photo_id data)"
  shows "distinct (map photo_id (photos (pollForNew owner visible (StoreData (Some data)) st)))"
proof (cases data)
  case Nil
  with assms(2) show ?thesis by (simp add: pollForNew_def)
next
  case (Cons d ds)
  let ?new = "filter (\<lambda>p. photo_id p \<notin> set (map photo_id (photos st))) data"
  have "distinct (map photo_id ?new)"
    using assms(3) by (simp add: distinct_map_filter)
  moreover have "set (map photo_id ?new) \<inter> set (map photo_id (photos st)) = {}"
    by auto
  ultimately have "distinct (map photo_id (?new @ photos st))"
    using assms(2) by simp
  with assms(1,2) Cons show ?thesis
    by (auto simp: pollForNew_def Let_def)
qed

text \<open>
  C2 fails on the code. The snapshot holds \<open>a\<close> and the refs are current. A realtime
  insert delivers \<open>b\<close>; before the effect that refreshes \<open>photosRef\<close> has run, the poll
  for new records receives \<open>b\<close> as well, checks it against \<open>photosRef\<close>, where \<open>b\<close> is
  not yet, and prepends it: the snapshot holds \<open>b\<close> twice.
\<close>

theorem poll_after_push_duplicates:
  "photos (run (Some ''owner-1'')
      [RealtimeInsert (inserted ''b'' ''2024-01-02''),
       NewPoll (StoreData (Some [inserted ''b'' ''2024-01-02'']))]
      \<lparr>photos = [inserted ''a'' ''2024-01-01''], photosRef = [inserted ''a'' ''2024-01-01''],
        latestCreatedAtRef = Some ''2024-01-01''\<rparr>)
     = [inserted ''b'' ''2024-01-02'', inserted ''b'' ''2024-01-02'', inserted ''a'' ''2024-01-01'']
   \<and> \<not> distinct (map photo_id (photos (run (Some ''owner-1'')
      [RealtimeInsert (inserted ''b'' ''2024-01-02''),
       NewPoll (StoreData (Some [inserted ''b'' ''2024-01-02'']))]
      \<lparr>photos = [inserted ''a'' ''2024-01-01''], photosRef = [inserted ''a'' ''2024-01-01''],
        latestCreatedAtRef = Some ''2024-01-01''\<rparr>)))"
  by (simp add: run_def addPhotoIfNew_def addIfNew_def pollForNew_def inserted_def)

subsection \<open>Substrings\<close>

lemma startsWith_iff: "startsWith s p \<longleftrightarrow> (\<exists>post. s = p @ post)"
proof
  assume "startsWith s p"
  then have "s = p @ drop (length p) s"
    by (metis startsWith_def append_take_drop_id)
  then show "\<exists>post. s = p @ post" ..
next
  assume "\<exists>post. s = p @ post"
  then show "startsWith s p" by (auto simp: startsWith_def)
qed

lemma str_includes_iff: "str_includes s q \<longleftrightarrow> (\<exists>pre post. s = pre @ q @ post)"
proof (induction s)
  case Nil
  then show ?case by auto
next
  case (Cons c s)
  show ?case
  proof
    assume "str_includes (c # s) q"
    then consider "startsWith (c # s) q" | "str_includes s q" by auto
    then show "\<exists>pre post. c # s = pre @ q @ post"
    proof cases
      case 1
      then obtain post where "c # s = q @ post" by (auto simp: startsWith_iff)
      then have "c # s = [] @ q @ post" by simp
      then show ?thesis by blast
    next
      case 2
      then obtain pre post where "s = pre @ q @ post" using Cons.IH by blast
      then have "c # s = (c # pre) @ q @ post" by simp
      then show ?thesis by blast
    qed
  next
    assume "\<exists>pre post. c # s = pre @ q @ post"
    then obtain pre post where e: "c # s = pre @ q @ post" by blast
    show "str_includes (c # s) q"
    proof (cases pre)
      case Nil
      with e have "startsWith (c # s) q" by (auto simp: startsWith_iff)
      then show ?thesis by simp
    next
      case (Cons d pre')
      with e have "s = pre' @ q @ post" by simp
      then have "str_includes s q" using Cons.IH by blast
      then show ?thesis by simp
    qed
  qed
qed

lemma str_includes_empty [simp]: "str_includes s []"
  by (induction s) (simp_all add: startsWith_def)

subsection \<open>The escaped pattern is a literal\<close>

lemma b_not_meta: "CHR ''b'' \<notin> set metachars"
  by (simp add: metachars_def backslash_def)

lemma backslash_meta: "backslash \<in> set metachars"
  by (simp add: metachars_def)

lemma compile_lit:
  "c \<notin> set metachars \<Longrightarrow> compile (c # rest) = map_option (Cons (Lit c)) (compile rest)"
  using backslash_meta by (cases rest) auto

lemma compile_esc:
  "c \<in> set metachars \<Longrightarrow> compile (backslash # c # rest) = map_option (Cons (Lit c)) (compile rest)"
  using b_not_meta by auto

lemma compile_boundary:
  "compile (backslash # CHR ''b'' # rest) = map_option (Cons Boundary) (compile rest)"
  by simp

lemma compile_escaped:
  "compile (escapeRegExp t @ p) = map_option ((@) (map Lit t)) (compile p)"
proof (induction t)
  case Nil
  then show ?case by (simp add: escapeRegExp_def option.map_ident)
next
  case (Cons c t)
  have e: "escapeRegExp (c # t) = (if c \<in> set metachars then [backslash, c] else [c]) @ escapeRegExp t"
    by (simp add: escapeRegExp_def)
  show ?case
  proof (cases "c \<in> set metachars")
    case True
    then have "compile (escapeRegExp (c # t) @ p) = compile (backslash # c # (escapeRegExp t @ p))"
      by (simp add: e)
    also have "\<dots> = map_option (Cons (Lit c)) (compile (escapeRegExp t @ p))"
      using True by (rule compile_esc)
    finally show ?thesis
      by (simp add: Cons.IH option.map_comp comp_def)
  next
    case False
    then have "compile (escapeRegExp (c # t) @ p) = compile (c # (escapeRegExp t @ p))"
      by (simp add: e)
    also have "\<dots> = map_option (Cons (Lit c)) (compile (escapeRegExp t @ p))"
      using False by (rule compile_lit)
    finally show ?thesis
      by (simp add: Cons.IH option.map_comp comp_def)
  qed
qed

lemma compile_boundedPattern:
  "compile (boundedPattern t) = Some (Boundary # map Lit t @ [Boundary])"
proof -
  have "compile [backslash, CHR ''b''] = Some [Boundary]" by simp
  then have "compile (escapeRegExp t @ [backslash, CHR ''b'']) = Some (map Lit t @ [Boundary])"
    by (simp only: compile_escaped) simp
  then show ?thesis
    unfolding boundedPattern_def by (simp only: append_Cons append_Nil compile_boundary) simp
qed

subsection \<open>What the compiled pattern matches\<close>

lemma lastOr_Nil [simp]: "lastOr prev [] = prev"
  by (simp add: lastOr_def)

lemma lastOr_Cons [simp]: "lastOr prev (c # xs) = lastOr (Some c) xs"
  by (cases "rev xs") (simp_all add: lastOr_def)

lemma lastOr_append [simp]: "lastOr prev (xs @ ys) = lastOr (lastOr prev xs) ys"
  by (induction xs arbitrary: prev) simp_all

lemma wordBefore_lastOr: "wordBefore (lastOr None xs) = endsInWord xs"
  by (cases "rev xs") (simp_all add: lastOr_def endsInWord_def wordBefore_def)

lemma matchHere_lits:
  "matchHere (map Lit t @ r) prev s \<longleftrightarrow>
     (\<exists>mid post. s = mid @ post \<and> map canonicalize mid = map canonicalize t
        \<and> matchHere r (lastOr prev mid) post)"
proof (induction t arbitrary: prev s)
  case Nil
  then show ?case by simp
next
  case (Cons c t)
  show ?case
  proof (cases s)
    case Nil
    then show ?thesis by simp
  next
    case (Cons d s')
    have "matchHere (map Lit (c # t) @ r) prev (d # s') \<longleftrightarrow>
          canonicalize c = canonicalize d \<and> matchHere (map Lit t @ r) (Some d) s'"
      by simp
    also have "\<dots> \<longleftrightarrow> canonicalize c = canonicalize d \<and>
        (\<exists>mid post. s' = mid @ post \<and> map canonicalize mid = map canonicalize t
           \<and> matchHere r (lastOr (Some d) mid) post)"
      by (simp only: Cons.IH)
    also have "\<dots> \<longleftrightarrow> (\<exists>mid post. d # s' = mid @ post
         \<and> map canonicalize mid = map canonicalize (c # t) \<and> matchHere r (lastOr prev mid) post)"
    proof
      assume "canonicalize c = canonicalize d \<and>
        (\<exists>mid post. s' = mid @ post \<and> map canonicalize mid = map canonicalize t
           \<and> matchHere r (lastOr (Some d) mid) post)"
      then obtain mid post where "canonicalize c = canonicalize d" "s' = mid @ post"
        "map canonicalize mid = map canonicalize t" "matchHere r (lastOr (Some d) mid) post"
        by blast
      then have "d # s' = (d # mid) @ post \<and> map canonicalize (d # mid) = map canonicalize (c # t)
          \<and> matchHere r (lastOr prev (d # mid)) post" by simp
      then show "\<exists>mid post. d # s' = mid @ post
         \<and> map canonicalize mid = map canonicalize (c # t) \<and> matchHere r (lastOr prev mid) post"
        by blast
    next
      assume "\<exists>mid post. d # s' = mid @ post
         \<and> map canonicalize mid = map canonicalize (c # t) \<and> matchHere r (lastOr prev mid) post"
      then obtain mid post where m: "d # s' = mid @ post"
        "map canonicalize mid = map canonicalize (c # t)" "matchHere r (lastOr prev mid) post"
        by blast
      from m(2) obtain e mid' where mid: "mid = e # mid'" by (cases mid) auto
      with m have "e = d" "s' = mid' @ post" "canonicalize d = canonicalize c"
        "map canonicalize mid' = map canonicalize t" "matchHere r (lastOr (Some d) mid') post"
        by auto
      then show "canonicalize c = canonicalize d \<and>
        (\<exists>mid post. s' = mid @ post \<and> map canonicalize mid = map canonicalize t
           \<and> matchHere r (lastOr (Some d) mid) post)" by auto
    qed
    finally show ?thesis using Cons by simp
  qed
qed

lemma matchFrom_iff:
  "matchFrom r prev s \<longleftrightarrow> (\<exists>pre post. s = pre @ post \<and> matchHere r (lastOr prev pre) post)"
proof (induction s arbitrary: prev)
  case Nil
  then show ?case by simp
next
  case (Cons d s)
  show ?case
  proof
    assume "matchFrom r prev (d # s)"
    then consider "matchHere r prev (d # s)" | "matchFrom r (Some d) s" by auto
    then show "\<exists>pre post. d # s = pre @ post \<and> matchHere r (lastOr prev pre) post"
    proof cases
      case 1
      then have "d # s = [] @ (d # s) \<and> matchHere r (lastOr prev []) (d # s)" by simp
      then show ?thesis by blast
    next
      case 2
      then obtain pre post where "s = pre @ post" "matchHere r (lastOr (Some d) pre) post"
        using Cons.IH by blast
      then have "d # s = (d # pre) @ post \<and> matchHere r (lastOr prev (d # pre)) post" by simp
      then show ?thesis by blast
    qed
  next
    assume "\<exists>pre post. d # s = pre @ post \<and> matchHere r (lastOr prev pre) post"
    then obtain pre post where e: "d # s = pre @ post" "matchHere r (lastOr prev pre) post"
      by blast
    show "matchFrom r prev (d # s)"
    proof (cases pre)
      case Nil
      with e have "matchHere r prev (d # s)" by simp
      then show ?thesis by simp
    next
      case (Cons d' pre')
      with e have "s = pre' @ post" "matchHere r (lastOr (Some d) pre') post" by auto
      then have "matchFrom r (Some d) s" using Cons.IH by blast
      then show ?thesis by simp
    qed
  qed
qed

lemma matchHere_bounded:
  "matchHere (Boundary # map Lit t @ [Boundary]) (lastOr None pre) rest \<longleftrightarrow>
     (endsInWord pre \<noteq> wordAt rest
      \<and> (\<exists>mid post. rest = mid @ post \<and> map canonicalize mid = map canonicalize t
             \<and> endsInWord (pre @ mid) \<noteq> wordAt post))"
proof -
  have l: "\<And>mid. wordBefore (lastOr (lastOr None pre) mid) = endsInWord (pre @ mid)"
    by (simp only: lastOr_append [symmetric] wordBefore_lastOr)
  show ?thesis
    by (simp only: matchHere.simps(1,2) matchHere_lits l wordBefore_lastOr simp_thms)
qed

lemma regex_test_bounded:
  "regex_test (Boundary # map Lit t @ [Boundary]) h \<longleftrightarrow> occursAsWord t h"
proof -
  have "regex_test (Boundary # map Lit t @ [Boundary]) h \<longleftrightarrow>
      (\<exists>pre rest. h = pre @ rest \<and> endsInWord pre \<noteq> wordAt rest
         \<and> (\<exists>mid post. rest = mid @ post \<and> map canonicalize mid = map canonicalize t
              \<and> endsInWord (pre @ mid) \<noteq> wordAt post))"
    by (simp only: regex_test_def matchFrom_iff matchHere_bounded)
  also have "\<dots> \<longleftrightarrow> occursAsWord t h"
    unfolding occursAsWord_def by blast
  finally show ?thesis .
qed

subsection \<open>Sorting by date\<close>

lemma sortByDate_filter_sorted:
  "sortByDate env (filter P (sortByDate env xs)) = filter P (sortByDate env xs)"
proof -
  let ?k = "\<lambda>p. - getTime env (created_at p)"
  have "sorted (map ?k (sort_key ?k xs))" by simp
  then have "sorted (map ?k (filter P (sort_key ?k xs)))" by (rule sorted_filter)
  then show ?thesis
    unfolding sortByDate_def by (rule sort_key_id_if_sorted)
qed

lemma sortByDate_idem: "sortByDate env (sortByDate env xs) = sortByDate env xs"
  using sortByDate_filter_sorted [of env "\<lambda>_. True" xs] by simp

subsection \<open>The query modes\<close>

lemma toLowerCase_dquote: "toLowerCase_char (CHR 0x22) = CHR 0x22"
  by code_simp

lemma exact_not_note:
  assumes "isExactPhrase search"
  shows "\<not> isNoteSearch search" "hasSearch search" "searchLower search \<noteq> []"
proof -
  from assms obtain rest where q: "searchQuery search = CHR 0x22 # rest"
    by (cases "searchQuery search") (auto simp: isExactPhrase_def startsWith_def dquote_def)
  then have l: "searchLower search = CHR 0x22 # toLowerCase rest"
    by (simp add: searchLower_def toLowerCase_def toLowerCase_dquote)
  show "\<not> isNoteSearch search"
    by (simp add: isNoteSearch_def l startsWith_def)
  show "hasSearch search" by (simp add: hasSearch_def q)
  show "searchLower search \<noteq> []" by (simp add: l)
qed

lemma fuzzyMatches_exact: "isExactPhrase search \<Longrightarrow> fuzzyMatches env search snap = []"
  by (simp add: fuzzyMatches_def)

lemma searchLower_empty: "searchLower search = [] \<longleftrightarrow> \<not> hasSearch search"
  by (simp add: searchLower_def hasSearch_def toLowerCase_def)

lemma fallbackFiltered_free:
  "\<not> isExactPhrase search \<Longrightarrow>
   fallbackFiltered env search snap =
     Some (filter (\<lambda>p. str_includes (haystack env p) (searchLower search)) (sortedPhotos env snap))"
  by (simp add: fallbackFiltered_def Let_def)

subsection \<open>The merger keeps the first photo of each id\<close>

lemma fold_pushUnseen:
  "fold pushUnseen zs (S, acc) = (S \<union> photo_id ` set zs, acc @ unique S zs)"
proof (induction zs arbitrary: S acc)
  case Nil
  then show ?case by simp
next
  case (Cons z zs)
  have f: "fold pushUnseen (z # zs) (S, acc) = fold pushUnseen zs (pushUnseen z (S, acc))"
    by simp
  show ?case
  proof (cases "photo_id z \<in> S")
    case True
    then have "pushUnseen z (S, acc) = (S, acc)" by (simp add: pushUnseen_def)
    with True show ?thesis unfolding f by (auto simp: Cons.IH)
  next
    case False
    then have "pushUnseen z (S, acc) = (insert (photo_id z) S, acc @ [z])"
      by (simp add: pushUnseen_def)
    with False show ?thesis unfolding f by (auto simp: Cons.IH)
  qed
qed

lemma unique_append: "unique S (xs @ ys) = unique S xs @ unique (S \<union> photo_id ` set xs) ys"
  by (induction xs arbitrary: S) (auto simp: insert_absorb)

lemma mergeById_unique: "mergeById fuzzy fallback = unique {} (fuzzy @ fallback)"
  by (simp add: mergeById_def fold_pushUnseen unique_append)

text \<open>
  C4. For a free-text query whose trimmed, lower-cased length is below 3 the fuzzy list
  is empty whatever the Snapshot holds, so that no photo is scored; the fallback list is
  the date-sorted Snapshot filtered by substring containment of the query in the
  haystack; and without semantic results that list is what is displayed.
\<close>

theorem short_query_substring_only:
  assumes "\<not> isNoteSearch search" and "\<not> isExactPhrase search"
    and "length (searchLower search) < 3"
  shows "fuzzyMatches env search snap = []
    \<and> fallbackFiltered env search snap =
        Some (filter (\<lambda>p. \<exists>pre post. haystack env p = pre @ searchLower search @ post)
               (sortedPhotos env snap))
    \<and> displayPhotos env search None snap = fallbackFiltered env search snap
    \<and> displayPhotos env search (Some []) snap = fallbackFiltered env search snap"
proof -
  let ?fb = "filter (\<lambda>p. str_includes (haystack env p) (searchLower search)) (sortedPhotos env snap)"
  have fz: "fuzzyMatches env search snap = []"
    using assms(3) by (simp add: fuzzyMatches_def)
  have fb: "fallbackFiltered env search snap = Some ?fb"
    using assms(2) by (rule fallbackFiltered_free)
  have srt: "sortByDate env ?fb = ?fb"
    unfolding sortedPhotos_def by (rule sortByDate_filter_sorted)
  have all: "\<not> hasSearch search \<Longrightarrow> ?fb = sortedPhotos env snap"
    by (simp add: searchLower_empty [symmetric])
  have d1: "displayPhotos env search None snap = Some ?fb"
    using assms(1,2) all by (simp add: displayPhotos_def fb fz srt)
  have d2: "displayPhotos env search (Some []) snap = Some ?fb"
    using assms(1,2) all by (simp add: displayPhotos_def fb fz srt)
  show ?thesis
    using fz d1 d2 by (simp add: fb str_includes_iff)
qed

lemma word_char_gives_boundary:
  assumes "\<exists>c \<in> set h. isWordChar c"
  shows "occursAsWord [] h"
proof -
  let ?pre = "takeWhile (\<lambda>c. \<not> isWordChar c) h" and ?post = "dropWhile (\<lambda>c. \<not> isWordChar c) h"
  have ne: "?post \<noteq> []" using assms by (simp add: dropWhile_eq_Nil_conv)
  then have "isWordChar (hd ?post)" using hd_dropWhile [of "\<lambda>c. \<not> isWordChar c" h] by simp
  with ne have w: "wordAt ?post" by (cases ?post) (simp_all add: wordAt_def)
  have "\<not> endsInWord ?pre"
  proof (cases "rev ?pre")
    case Nil
    then show ?thesis by (simp add: endsInWord_def)
  next
    case (Cons c cs)
    then have "c \<in> set ?pre" by (metis list.set_intros(1) set_rev)
    then have "\<not> isWordChar c" by (rule set_takeWhileD [THEN conjunct2])
    with Cons show ?thesis by (simp add: endsInWord_def)
  qed
  with w have "h = ?pre @ [] @ ?post \<and> map canonicalize [] = map canonicalize []
      \<and> endsInWord ?pre \<noteq> wordAt ([] @ ?post) \<and> endsInWord (?pre @ []) \<noteq> wordAt ?post"
    by simp
  then show ?thesis unfolding occursAsWord_def by blast
qed

lemma red_shoes_match:
  "regex_test (Boundary # map Lit ''red shoes'' @ [Boundary]) ''i love red shoes today''"
  by code_simp

lemma red_shoes_no_match:
  "\<not> regex_test (Boundary # map Lit ''red shoes'' @ [Boundary]) ''i love redshoes today''"
  by code_simp

text \<open>
  C5. For an exact-phrase query the pattern built from the escaped phrase compiles to
  the phrase as a literal between two word boundaries, and it matches a string exactly
  when the phrase occurs in it as a whole word; a photo is in the fallback list iff the
  phrase occurs so in its haystack (the searchable fields and the two date renderings);
  the displayed list is that list, whatever the fuzzy and the semantic results are. The
  phrase "red shoes" occurs as a whole word in "i love red shoes today" and not in
  "i love redshoes today". Where the phrase is empty after trimming, the code builds no
  pattern and keeps every photo; that agrees with the pattern as long as every haystack
  holds a word character, as the digits of a date rendering are.
\<close>

theorem exact_phrase_whole_word:
  assumes "isExactPhrase search"
    and "exactTerm search = [] \<longrightarrow> (\<forall>p \<in> set snap. \<exists>c \<in> set (haystack env p). isWordChar c)"
  shows "compile (boundedPattern (exactTerm search))
           = Some (Boundary # map Lit (exactTerm search) @ [Boundary])
    \<and> (\<forall>h. regex_test (Boundary # map Lit (exactTerm search) @ [Boundary]) h
             \<longleftrightarrow> occursAsWord (exactTerm search) h)
    \<and> fallbackFiltered env search snap =
        Some (filter (\<lambda>p. occursAsWord (exactTerm search) (haystack env p)) (sortedPhotos env snap))
    \<and> displayPhotos env search sem snap =
        Some (filter (\<lambda>p. occursAsWord (exactTerm search) (haystack env p)) (sortedPhotos env snap))
    \<and> fuzzyMatches env search snap = []
    \<and> occursAsWord ''red shoes'' ''i love red shoes today''
    \<and> \<not> occursAsWord ''red shoes'' ''i love redshoes today''"
proof -
  let ?t = "exactTerm search"
  let ?fb = "filter (\<lambda>p. occursAsWord ?t (haystack env p)) (sortedPhotos env snap)"
  note modes = exact_not_note [OF assms(1)]
  have fb: "fallbackFiltered env search snap = Some ?fb"
  proof (cases "?t = []")
    case True
    with assms(2) have "\<forall>p \<in> set (sortedPhotos env snap). occursAsWord ?t (haystack env p)"
      by (simp add: word_char_gives_boundary sortedPhotos_def sortByDate_def)
    then have "?fb = sortedPhotos env snap" by (simp add: filter_id_conv)
    with True assms(1) modes(3) show ?thesis
      by (simp add: fallbackFiltered_def)
  next
    case False
    with assms(1) modes(3) show ?thesis
      by (simp add: fallbackFiltered_def compile_boundedPattern regex_test_bounded)
  qed
  have srt: "sortByDate env ?fb = ?fb"
    unfolding sortedPhotos_def by (rule sortByDate_filter_sorted)
  have d: "displayPhotos env search sem snap = Some ?fb"
    using assms(1) modes(1,2) by (simp add: displayPhotos_def fb srt)
  have ex: "occursAsWord ''red shoes'' ''i love red shoes today''"
    "\<not> occursAsWord ''red shoes'' ''i love redshoes today''"
    using red_shoes_match red_shoes_no_match unfolding regex_test_bounded by blast+
  show ?thesis
    using fb d ex
    by (simp add: compile_boundedPattern regex_test_bounded fuzzyMatches_exact [OF assms(1)])
qed

text \<open>
  C7. When the semantic-search request of a free-text query fails (the request is
  rejected, the status is not ok, or the body is not JSON), \<open>semanticPhotos\<close> is \<open>null\<close>,
  nothing is added to the alerts shown to the user, and the displayed list is the Text
  Matcher's: the fuzzy list followed by the fallback photos not yet in it, or the
  fallback list alone when the fuzzy list is empty, sorted by date. An embedding that
  is unavailable and a store that fails are such failures: the endpoint answers with a
  status that is not ok.
\<close>

theorem semantic_failure_is_soft:
  assumes "requestIssued search owner"
    and "res = NetworkError \<or> (\<exists>b. res = HttpResponse False b) \<or> res = HttpResponse True Unparsable"
  shows "semanticPhotos (semanticSearchEffect search owner res st) = None
    \<and> alerts (semanticSearchEffect search owner res st) = alerts st
    \<and> (\<exists>fallback. fallbackFiltered env search snap = Some fallback
         \<and> displayPhotos env search (semanticPhotos (semanticSearchEffect search owner res st)) snap
             = Some (sortByDate env
                 (if fuzzyMatches env search snap = [] then fallback
                  else unique {} (fuzzyMatches env search snap @ fallback))))
    \<and> (embedRes = Threw \<or> embedRes = Returned None \<or> stored = StoreError \<longrightarrow>
         (\<exists>b. deliver (semanticSearch_POST q o' embedRes stored) = HttpResponse False b))"
proof -
  from assms(1) have m: "\<not> isNoteSearch search" "\<not> isExactPhrase search" "hasSearch search"
    by (simp_all add: requestIssued_def hasSearch_def searchQuery_def)
  have s: "semanticPhotos (semanticSearchEffect search owner res st) = None"
    using assms by (auto simp: semanticSearchEffect_def)
  have a: "alerts (semanticSearchEffect search owner res st) = alerts st"
    using assms by (auto simp: semanticSearchEffect_def)
  have "displayPhotos env search None snap
      = Some (sortByDate env
          (if fuzzyMatches env search snap = []
           then filter (\<lambda>p. str_includes (haystack env p) (searchLower search)) (sortedPhotos env snap)
           else unique {} (fuzzyMatches env search snap
             @ filter (\<lambda>p. str_includes (haystack env p) (searchLower search)) (sortedPhotos env snap))))"
    using m by (simp add: displayPhotos_def fallbackFiltered_free mergeById_unique Let_def)
  with s m(2) have d: "\<exists>fallback. fallbackFiltered env search snap = Some fallback
         \<and> displayPhotos env search (semanticPhotos (semanticSearchEffect search owner res st)) snap
             = Some (sortByDate env
                 (if fuzzyMatches env search snap = [] then fallback
                  else unique {} (fuzzyMatches env search snap @ fallback)))"
    by (simp add: fallbackFiltered_free)
  have e: "embedRes = Threw \<or> embedRes = Returned None \<or> stored = StoreError \<longrightarrow>
         (\<exists>b. deliver (semanticSearch_POST q o' embedRes stored) = HttpResponse False b)"
    by (auto simp: semanticSearch_POST_def deliver_def Let_def
        split: outcome.splits option.splits rows.splits)
  from s a d e show ?thesis by blast
qed

subsection \<open>The fuzzy list as a filter and two sorts\<close>

lemma fuzzyMatches_free:
  assumes "\<not> isNoteSearch search" "\<not> isExactPhrase search" "3 \<le> length (searchLower search)"
  shows "fuzzyMatches env search snap =
     sort_key (\<lambda>p. - bestScore (searchLower search) p)
       (sortByDate env (filter (\<lambda>p. 0.42 \<le> bestScore (searchLower search) p) snap))"
proof -
  let ?q = "searchLower search"
  have "filter (\<lambda>s. snd s \<ge> 0.42) (map (\<lambda>photo. (photo, bestScore ?q photo)) (sortedPhotos env snap))
      = map (\<lambda>photo. (photo, bestScore ?q photo))
          (sortByDate env (filter (\<lambda>p. 0.42 \<le> bestScore ?q p) snap))"
    by (simp add: filter_map comp_def sortedPhotos_def sortByDate_def filter_sort)
  with assms show ?thesis
    by (simp add: fuzzyMatches_def Let_def byScore_pairs)
qed

lemma fallbackFiltered_free_sorted:
  "\<not> isExactPhrase search \<Longrightarrow>
   fallbackFiltered env search snap =
     Some (sortByDate env (filter (\<lambda>p. str_includes (haystack env p) (searchLower search)) snap))"
  by (simp add: fallbackFiltered_free sortedPhotos_def sortByDate_def filter_sort)

lemma sortByDate_single [simp]: "sortByDate env [p] = [p]"
  by (simp add: sortByDate_def)

subsection \<open>Scores\<close>

lemma scoreToken_range: "0 \<le> best \<Longrightarrow> best \<le> 1 \<Longrightarrow>
  0 \<le> scoreToken q tok best \<and> scoreToken q tok best \<le> 1"
  using similarity_range [of q tok] by (auto simp: scoreToken_def)

lemma fold_scoreToken_one: "fold (scoreToken q) toks 1 = 1"
proof (induction toks)
  case Nil
  then show ?case by simp
next
  case (Cons t toks)
  have "scoreToken q t 1 = 1"
    using similarity_range [of q t] by (auto simp: scoreToken_def)
  with Cons show ?case by simp
qed

subsection \<open>A query without a space does not straddle a space\<close>

lemma str_includes_space:
  assumes "CHR '' '' \<notin> set q"
  shows "str_includes (xs @ CHR '' '' # ys) q \<longleftrightarrow> str_includes xs q \<or> str_includes ys q"
proof
  assume "str_includes (xs @ CHR '' '' # ys) q"
  then obtain pre post where e: "xs @ CHR '' '' # ys = pre @ q @ post"
    unfolding str_includes_iff by blast
  consider "length pre + length q \<le> length xs" | "length xs < length pre"
    | "length pre \<le> length xs" "length xs < length pre + length q" by linarith
  then show "str_includes xs q \<or> str_includes ys q"
  proof cases
    case 1
    have "xs = take (length xs) (pre @ q @ post)" using e by (metis append_eq_conv_conj)
    also have "\<dots> = pre @ q @ take (length xs - length pre - length q) post"
      using 1 by simp
    finally show ?thesis unfolding str_includes_iff by blast
  next
    case 2
    have "ys = drop (Suc (length xs)) (xs @ CHR '' '' # ys)" by simp
    also have "\<dots> = drop (Suc (length xs)) pre @ q @ post"
      using 2 by (simp add: e)
    finally show ?thesis unfolding str_includes_iff by blast
  next
    case 3
    have k: "length xs - length pre < length q" using 3 by linarith
    have "(xs @ CHR '' '' # ys) ! length xs = CHR '' ''" by simp
    moreover have "(pre @ q @ post) ! length xs = q ! (length xs - length pre)"
      using 3 k by (simp add: nth_append)
    moreover have "q ! (length xs - length pre) \<in> set q"
      using k by simp
    ultimately show ?thesis using e assms by simp
  qed
next
  assume "str_includes xs q \<or> str_includes ys q"
  then show "str_includes (xs @ CHR '' '' # ys) q"
  proof
    assume "str_includes xs q"
    then obtain pre post where "xs = pre @ q @ post" unfolding str_includes_iff by blast
    then have "xs @ CHR '' '' # ys = pre @ q @ (post @ CHR '' '' # ys)" by simp
    then show ?thesis unfolding str_includes_iff by blast
  next
    assume "str_includes ys q"
    then obtain pre post where "ys = pre @ q @ post" unfolding str_includes_iff by blast
    then have "xs @ CHR '' '' # ys = (xs @ CHR '' '' # pre) @ q @ post" by simp
    then show ?thesis unfolding str_includes_iff by blast
  qed
qed

subsection \<open>The query "cozy" and the three records\<close>

lemma cozy_query:
  "searchLower ''cozy'' = ''cozy''" "\<not> isNoteSearch ''cozy''" "\<not> isExactPhrase ''cozy''"
  "hasSearch ''cozy''"
  by code_simp+

lemma lev_cozy_caption: "levenshtein ''cozy'' ''a kozy evening'' = 11"
  by code_simp

lemma lev_cozy_knit: "levenshtein ''cozy'' ''kozy'' = 1"
  by code_simp

lemma sim_cozy_kozy: "similarity ''cozy'' ''kozy'' = 3 / 4"
  by (simp add: similarity_def lev_cozy_knit)

lemma sim_cozy_caption: "similarity ''cozy'' ''a kozy evening'' = 3 / 14"
  by (simp add: similarity_def lev_cozy_caption)

lemma lower_literals:
  "toLowerCase ''cozy'' = ''cozy''" "toLowerCase ''knit'' = ''knit''"
  "toLowerCase ''a kozy evening'' = ''a kozy evening''" "toLowerCase [] = []"
  by code_simp+

lemma tokens_cozy_knit: "tokens (cozy_knit i t) = [[], ''cozy'', ''knit'', [], [], []]"
  by (simp add: tokens_def fieldTexts_def cozy_knit_def inserted_def nullish_def truthy_def
      lower_literals)

lemma tokens_kozy_evening: "tokens (kozy_evening i t) = [''a kozy evening'', [], [], []]"
  by (simp add: tokens_def fieldTexts_def kozy_evening_def inserted_def nullish_def truthy_def
      lower_literals)

lemma tokens_unrelated: "tokens (unrelated i t) = [[], [], [], []]"
  by (simp add: tokens_def fieldTexts_def unrelated_def inserted_def nullish_def truthy_def
      lower_literals)

lemma includes_cozy: "str_includes ''cozy'' ''cozy''" "\<not> str_includes ''a kozy evening'' ''cozy''"
  by code_simp+

lemma score_cozy_knit: "bestScore ''cozy'' (cozy_knit i t) = 1"
proof -
  have "bestScore ''cozy'' (cozy_knit i t) = fold (scoreToken ''cozy'') [''knit'', [], [], []] 1"
    by (simp add: bestScore_def tokens_cozy_knit scoreToken_def includes_cozy del: str_includes.simps)
  then show ?thesis by (simp only: fold_scoreToken_one)
qed

lemma score_kozy_evening: "bestScore ''cozy'' (kozy_evening i t) = 3 / 14"
  by (simp add: bestScore_def tokens_kozy_evening scoreToken_def includes_cozy sim_cozy_caption
      del: str_includes.simps)

lemma score_unrelated: "bestScore ''cozy'' (unrelated i t) = 0"
  by (simp add: bestScore_def tokens_unrelated scoreToken_def)

lemma fuzzy_cozy:
  "fuzzyMatches env ''cozy'' [cozy_knit i1 t1, kozy_evening i2 t2, unrelated i3 t3] = [cozy_knit i1 t1]"
proof -
  have "3 \<le> length (searchLower ''cozy'')" by (simp add: cozy_query)
  from fuzzyMatches_free [OF cozy_query(2,3) this] show ?thesis
    by (simp add: cozy_query score_cozy_knit score_kozy_evening score_unrelated)
qed

lemma haystack_cozy_knit:
  "haystack env (cozy_knit i t) =
     '' cozy knit    '' @ toLowerCase (formatLong env t) @ CHR '' '' # toLowerCase (formatShort env t)"
  by (simp add: haystack_def fieldTexts_def cozy_knit_def inserted_def nullish_def truthy_def
      toLowerCase_def) code_simp

lemma haystack_kozy_evening:
  "haystack env (kozy_evening i t) =
     ''a kozy evening    '' @ toLowerCase (formatLong env t) @ CHR '' '' # toLowerCase (formatShort env t)"
  by (simp add: haystack_def fieldTexts_def kozy_evening_def inserted_def nullish_def truthy_def
      toLowerCase_def) code_simp

lemma haystack_unrelated:
  "haystack env (unrelated i t) =
     ''    '' @ toLowerCase (formatLong env t) @ CHR '' '' # toLowerCase (formatShort env t)"
  by (simp add: haystack_def fieldTexts_def unrelated_def inserted_def nullish_def truthy_def
      toLowerCase_def) code_simp

lemma fallback_cozy:
  assumes "\<forall>t. \<not> str_includes (toLowerCase (formatLong env t)) ''cozy''
             \<and> \<not> str_includes (toLowerCase (formatShort env t)) ''cozy''"
  shows "fallbackFiltered env ''cozy'' [cozy_knit i1 t1, kozy_evening i2 t2, unrelated i3 t3]
           = Some [cozy_knit i1 t1]"
proof -
  have sp: "CHR '' '' \<notin> set ''cozy''" by simp
  have 1: "str_includes (haystack env (cozy_knit i1 t1)) ''cozy''"
    by (simp add: haystack_cozy_knit startsWith_def)
  have 2: "\<not> str_includes (haystack env (kozy_evening i2 t2)) ''cozy''"
    using assms by (simp add: haystack_kozy_evening startsWith_def str_includes_space [OF sp])
  have 3: "\<not> str_includes (haystack env (unrelated i3 t3)) ''cozy''"
    using assms by (simp add: haystack_unrelated startsWith_def str_includes_space [OF sp])
  show ?thesis
    by (simp add: fallbackFiltered_free_sorted [OF cozy_query(3)] cozy_query(1) 1 2 3)
qed

lemma display_cozy:
  assumes "\<forall>t. \<not> str_includes (toLowerCase (formatLong env t)) ''cozy''
             \<and> \<not> str_includes (toLowerCase (formatShort env t)) ''cozy''"
    and "sem = None \<or> sem = Some []"
  shows "displayPhotos env ''cozy'' sem [cozy_knit i1 t1, kozy_evening i2 t2, unrelated i3 t3]
           = Some [cozy_knit i1 t1]"
  using assms(2)
  by (auto simp: displayPhotos_def fallback_cozy [OF assms(1)] fuzzy_cozy cozy_query
      mergeById_unique)

lemma example_host_dates:
  "\<forall>t. \<not> str_includes (toLowerCase (formatLong example_host t)) ''cozy''
      \<and> \<not> str_includes (toLowerCase (formatShort example_host t)) ''cozy''"
proof
  fix t
  have l: "formatLong example_host t \<in> {''January 1, 2024'', ''January 2, 2024'', ''January 3, 2024'', []}"
    by (simp add: example_host_def)
  have s: "formatShort example_host t \<in> {''Jan 1, 2024'', ''Jan 2, 2024'', ''Jan 3, 2024'', []}"
    by (simp add: example_host_def)
  have "\<forall>d \<in> set [''January 1, 2024'', ''January 2, 2024'', ''January 3, 2024'', [],
      ''Jan 1, 2024'', ''Jan 2, 2024'', ''Jan 3, 2024''].
       \<not> str_includes (toLowerCase d) ''cozy''"
    by code_simp
  with l s show "\<not> str_includes (toLowerCase (formatLong example_host t)) ''cozy''
      \<and> \<not> str_includes (toLowerCase (formatShort example_host t)) ''cozy''"
    by auto
qed

text \<open>
  C3, as the code has it. For the query "cozy" against the three records, on a host
  whose date renderings do not contain "cozy": the record tagged cozy and knit scores 1;
  the caption of the second record is one token, so that its score is
  \<open>similarity "cozy" "a kozy evening" = 1 - 11/14 = 3/14\<close>, below the threshold 0.42
  (\<open>similarity "cozy" "kozy"\<close> is 3/4, but the caption is not split into words); the
  record without text scores 0; and without semantic results the merged list holds the
  first record alone.
\<close>

theorem cozy_end_to_end:
  assumes "\<forall>t. \<not> str_includes (toLowerCase (formatLong env t)) ''cozy''
             \<and> \<not> str_includes (toLowerCase (formatShort env t)) ''cozy''"
  shows "bestScore ''cozy'' (cozy_knit i1 t1) = 1
    \<and> similarity ''cozy'' ''kozy'' = 3 / 4
    \<and> tokens (kozy_evening i2 t2) = [''a kozy evening'', [], [], []]
    \<and> bestScore ''cozy'' (kozy_evening i2 t2) = 3 / 14
    \<and> bestScore ''cozy'' (unrelated i3 t3) = 0
    \<and> fuzzyMatches env ''cozy'' [cozy_knit i1 t1, kozy_evening i2 t2, unrelated i3 t3]
        = [cozy_knit i1 t1]
    \<and> displayPhotos env ''cozy'' None [cozy_knit i1 t1, kozy_evening i2 t2, unrelated i3 t3]
        = Some [cozy_knit i1 t1]
    \<and> displayPhotos env ''cozy'' (Some []) [cozy_knit i1 t1, kozy_evening i2 t2, unrelated i3 t3]
        = Some [cozy_knit i1 t1]"
  using display_cozy [OF assms, of None] display_cozy [OF assms, of "Some []"]
  by (simp add: score_cozy_knit sim_cozy_kozy tokens_kozy_evening score_kozy_evening
      score_unrelated fuzzy_cozy)

theorem cozy_end_to_end_witness:
  "fuzzyMatches example_host ''cozy''
      [cozy_knit ''p1'' ''2024-01-01'', kozy_evening ''p2'' ''2024-01-02'', unrelated ''p3'' ''2024-01-03'']
     = [cozy_knit ''p1'' ''2024-01-01'']
   \<and> displayPhotos example_host ''cozy'' (Some [])
      [cozy_knit ''p1'' ''2024-01-01'', kozy_evening ''p2'' ''2024-01-02'', unrelated ''p3'' ''2024-01-03'']
     = Some [cozy_knit ''p1'' ''2024-01-01'']"
  using cozy_end_to_end [OF example_host_dates, of "''p1''" "''2024-01-01''" "''p2''" "''2024-01-02''"
      "''p3''" "''2024-01-03''"]
  by simp

text \<open>
  C3 as stated fails: the record with the caption "a kozy evening" scores 3/14, which is
  below 0.42, so it is no fuzzy hit, and the merged list does not contain it.
\<close>

theorem kozy_caption_is_no_fuzzy_hit:
  "bestScore ''cozy'' (kozy_evening ''p2'' ''2024-01-02'') < 0.42
   \<and> kozy_evening ''p2'' ''2024-01-02'' \<notin> set (fuzzyMatches example_host ''cozy''
      [cozy_knit ''p1'' ''2024-01-01'', kozy_evening ''p2'' ''2024-01-02'', unrelated ''p3'' ''2024-01-03''])
   \<and> displayPhotos example_host ''cozy'' None
      [cozy_knit ''p1'' ''2024-01-01'', kozy_evening ''p2'' ''2024-01-02'', unrelated ''p3'' ''2024-01-03'']
     = Some [cozy_knit ''p1'' ''2024-01-01'']"
proof -
  have "kozy_evening ''p2'' ''2024-01-02'' \<noteq> cozy_knit ''p1'' ''2024-01-01''"
    by (simp add: kozy_evening_def cozy_knit_def inserted_def)
  then show ?thesis
    using display_cozy [OF example_host_dates, of None]
    by (simp add: score_kozy_evening fuzzy_cozy)
qed

subsection \<open>The example Snapshot on the example host\<close>

lemma example_sorted:
  "sortedPhotos example_host
     [cozy_knit ''p1'' ''2024-01-01'', kozy_evening ''p2'' ''2024-01-02'', unrelated ''p3'' ''2024-01-03'']
   = [unrelated ''p3'' ''2024-01-03'', kozy_evening ''p2'' ''2024-01-02'', cozy_knit ''p1'' ''2024-01-01'']"
  by (simp add: sortedPhotos_def sortByDate_def example_host_def cozy_knit_def kozy_evening_def
      unrelated_def inserted_def)

lemma example_haystacks:
  "haystack example_host (cozy_knit ''p1'' ''2024-01-01'') = '' cozy knit    january 1, 2024 jan 1, 2024''"
  "haystack example_host (kozy_evening ''p2'' ''2024-01-02'') = ''a kozy evening    january 2, 2024 jan 2, 2024''"
  "haystack example_host (unrelated ''p3'' ''2024-01-03'') = ''    january 3, 2024 jan 3, 2024''"
  by code_simp+

lemma co_query:
  "\<not> isNoteSearch ''co''" "\<not> isExactPhrase ''co''" "length (searchLower ''co'') < 3"
  "searchLower ''co'' = ''co''"
  by code_simp+

lemma co_includes:
  "str_includes '' cozy knit    january 1, 2024 jan 1, 2024'' ''co''"
  "\<not> str_includes ''a kozy evening    january 2, 2024 jan 2, 2024'' ''co''"
  "\<not> str_includes ''    january 3, 2024 jan 3, 2024'' ''co''"
  by code_simp+

theorem short_query_substring_only_witness:
  "fuzzyMatches example_host ''co''
     [cozy_knit ''p1'' ''2024-01-01'', kozy_evening ''p2'' ''2024-01-02'', unrelated ''p3'' ''2024-01-03'']
     = []
   \<and> displayPhotos example_host ''co'' None
     [cozy_knit ''p1'' ''2024-01-01'', kozy_evening ''p2'' ''2024-01-02'', unrelated ''p3'' ''2024-01-03'']
     = Some [cozy_knit ''p1'' ''2024-01-01'']"
  using short_query_substring_only [OF co_query(1,2,3), of example_host
      "[cozy_knit ''p1'' ''2024-01-01'', kozy_evening ''p2'' ''2024-01-02'', unrelated ''p3'' ''2024-01-03'']"]
    co_includes [unfolded str_includes_iff]
  by (simp add: example_sorted example_haystacks co_query(4))

lemma quoted_query:
  "isExactPhrase quoted_cozy"
  "exactTerm quoted_cozy = ''cozy''"
  by code_simp+

lemma cozy_words:
  "regex_test (Boundary # map Lit ''cozy'' @ [Boundary]) '' cozy knit    january 1, 2024 jan 1, 2024''"
  "\<not> regex_test (Boundary # map Lit ''cozy'' @ [Boundary]) ''a kozy evening    january 2, 2024 jan 2, 2024''"
  "\<not> regex_test (Boundary # map Lit ''cozy'' @ [Boundary]) ''    january 3, 2024 jan 3, 2024''"
  by code_simp+

lemma quoted_nothing_query:
  "isExactPhrase quoted_nothing" "exactTerm quoted_nothing = []"
  by code_simp+

lemma example_word_chars:
  "\<forall>p \<in> set [cozy_knit ''p1'' ''2024-01-01'', kozy_evening ''p2'' ''2024-01-02'',
                unrelated ''p3'' ''2024-01-03''].
     \<exists>c \<in> set (haystack example_host p). isWordChar c"
  unfolding list.set ball_simps example_haystacks by code_simp

theorem exact_phrase_whole_word_witness:
  "displayPhotos example_host quoted_cozy (Some [unrelated ''p3'' ''2024-01-03''])
     [cozy_knit ''p1'' ''2024-01-01'', kozy_evening ''p2'' ''2024-01-02'', unrelated ''p3'' ''2024-01-03'']
     = Some [cozy_knit ''p1'' ''2024-01-01'']
   \<and> displayPhotos example_host quoted_nothing None
     [cozy_knit ''p1'' ''2024-01-01'', kozy_evening ''p2'' ''2024-01-02'', unrelated ''p3'' ''2024-01-03'']
     = fallbackFiltered example_host quoted_nothing
     [cozy_knit ''p1'' ''2024-01-01'', kozy_evening ''p2'' ''2024-01-02'', unrelated ''p3'' ''2024-01-03'']"
proof -
  let ?snap = "[cozy_knit ''p1'' ''2024-01-01'', kozy_evening ''p2'' ''2024-01-02'',
                unrelated ''p3'' ''2024-01-03'']"
  have h: "exactTerm quoted_cozy = [] \<longrightarrow>
      (\<forall>p \<in> set ?snap. \<exists>c \<in> set (haystack example_host p). isWordChar c)"
    by (simp only: quoted_query(2)) simp
  have 1: "displayPhotos example_host quoted_cozy (Some [unrelated ''p3'' ''2024-01-03'']) ?snap
     = Some [cozy_knit ''p1'' ''2024-01-01'']"
    using exact_phrase_whole_word [OF quoted_query(1) h, of "Some [unrelated ''p3'' ''2024-01-03'']"]
      cozy_words [unfolded regex_test_bounded]
    by (simp add: quoted_query(2) example_sorted example_haystacks)
  have h': "exactTerm quoted_nothing = [] \<longrightarrow>
      (\<forall>p \<in> set ?snap. \<exists>c \<in> set (haystack example_host p). isWordChar c)"
    using example_word_chars by blast
  have 2: "displayPhotos example_host quoted_nothing None ?snap
     = fallbackFiltered example_host quoted_nothing ?snap"
    using exact_phrase_whole_word [OF quoted_nothing_query(1) h', of None] by simp
  from 1 2 show ?thesis by blast
qed

lemma cozy_request: "requestIssued ''cozy'' (Some ''owner-1'')"
  by code_simp

theorem semantic_failure_is_soft_witness:
  "semanticPhotos (semanticSearchEffect ''cozy'' (Some ''owner-1'') NetworkError
      \<lparr>semanticPhotos = Some [unrelated ''p3'' ''2024-01-03''], alerts = [], console = []\<rparr>) = None
   \<and> alerts (semanticSearchEffect ''cozy'' (Some ''owner-1'') NetworkError
      \<lparr>semanticPhotos = Some [unrelated ''p3'' ''2024-01-03''], alerts = [], console = []\<rparr>) = []
   \<and> displayPhotos example_host ''cozy''
       (semanticPhotos (semanticSearchEffect ''cozy'' (Some ''owner-1'') NetworkError
          \<lparr>semanticPhotos = Some [unrelated ''p3'' ''2024-01-03''], alerts = [], console = []\<rparr>))
       [cozy_knit ''p1'' ''2024-01-01'', kozy_evening ''p2'' ''2024-01-02'', unrelated ''p3'' ''2024-01-03'']
     = Some [cozy_knit ''p1'' ''2024-01-01'']"
proof -
  let ?st = "\<lparr>semanticPhotos = Some [unrelated ''p3'' ''2024-01-03''], alerts = [], console = []\<rparr>"
  let ?snap = "[cozy_knit ''p1'' ''2024-01-01'', kozy_evening ''p2'' ''2024-01-02'',
                unrelated ''p3'' ''2024-01-03'']"
  let ?st' = "semanticSearchEffect ''cozy'' (Some ''owner-1'') NetworkError ?st"
  have r: "NetworkError = NetworkError \<or> (\<exists>b. NetworkError = HttpResponse False b)
      \<or> NetworkError = HttpResponse True Unparsable" by simp
  note th = semantic_failure_is_soft [OF cozy_request r, of ?st example_host ?snap]
  from th have s: "semanticPhotos ?st' = None" by blast
  from th have "alerts ?st' = alerts ?st" by blast
  then have a: "alerts ?st' = []" by simp
  from th obtain fallback where f: "fallbackFiltered example_host ''cozy'' ?snap = Some fallback"
    and d: "displayPhotos example_host ''cozy'' (semanticPhotos ?st') ?snap
      = Some (sortByDate example_host
          (if fuzzyMatches example_host ''cozy'' ?snap = [] then fallback
           else unique {} (fuzzyMatches example_host ''cozy'' ?snap @ fallback)))"
    by blast
  from f have "fallback = [cozy_knit ''p1'' ''2024-01-01'']"
    by (simp add: fallback_cozy [OF example_host_dates])
  with d have "displayPhotos example_host ''cozy'' (semanticPhotos ?st') ?snap
      = Some [cozy_knit ''p1'' ''2024-01-01'']"
    by (simp add: fuzzy_cozy)
  with s a show ?thesis by blast
qed

end
